theory Spec2Isabelle
  imports Main
begin

section \<open>Python values and library functions used by org2mind.py\<close>

text \<open>
  Text is modelled as \<^typ>\<open>string\<close>, one \<^typ>\<open>char\<close> per code point below 256.
  \<open>isspace\<close> is the whitespace class shared by \<open>str.strip()\<close> and by \<open>\s\<close> in a
  \<open>str\<close> pattern, restricted to these code points.
\<close>

definition isspace :: "char \<Rightarrow> bool" where
  "isspace c =
     (let n = (of_char c :: nat)
      in (9 \<le> n \<and> n \<le> 13) \<or> (28 \<le> n \<and> n \<le> 32) \<or> n = 133 \<or> n = 160)"

definition newline :: char where
  "newline = CHR 0x0A"

definition strip :: "string \<Rightarrow> string" where
  "strip s = rev (dropWhile isspace (rev (dropWhile isspace s)))"

text \<open>\<open>str.lower()\<close> on the code points below 256: A-Z and the Latin-1 capitals.\<close>

definition lower_char :: "char \<Rightarrow> char" where
  "lower_char c =
     (let n = (of_char c :: nat)
      in if (65 \<le> n \<and> n \<le> 90) \<or> (192 \<le> n \<and> n \<le> 222 \<and> n \<noteq> 215)
         then char_of (n + 32) else c)"

definition lower :: "string \<Rightarrow> string" where
  "lower s = map lower_char s"

datatype error = IndexError

text \<open>
  Subscription \<open>xs[i]\<close> of a list: an index from \<open>-len(xs)\<close> to \<open>-1\<close> is taken from the
  end, and an index outside \<open>-len(xs) .. len(xs)-1\<close> raises \<open>IndexError\<close>.
\<close>

definition py_index :: "'a list \<Rightarrow> int \<Rightarrow> error + 'a" where
  "py_index xs i =
     (if 0 \<le> i \<and> i < int (length xs) then Inr (xs ! nat i)
      else if i < 0 \<and> - int (length xs) \<le> i then Inr (xs ! nat (int (length xs) + i))
      else Inl IndexError)"

text \<open>
  The values of the \<open>meta\<close> dictionary: the float literal \<open>0.2\<close> of line 124, written
  \<open>PyFloat 2 (-1)\<close> (mantissa and decimal exponent of the literal; no arithmetic is done
  with it), and the strings captured by the metadata pattern.
\<close>

datatype pyval = PyFloat int int | PyStr string

section \<open>The two regular expressions\<close>

text \<open>
  \<open>(.+?)$\<close> tried at the start of \<open>r\<close>: the lazy group takes the shortest non-empty run
  of characters other than newline after which \<open>$\<close> holds, and \<open>$\<close> holds at the end of
  the string and just before a newline that ends the string.
\<close>

definition text_to_end :: "string \<Rightarrow> string option" where
  "text_to_end r =
     (if r = [] then None
      else if newline \<notin> set r then Some r
      else if last r = newline \<and> butlast r \<noteq> [] \<and> newline \<notin> set (butlast r)
           then Some (butlast r)
      else None)"

text \<open>
  \<open>\s+(.+?)$\<close>: the greedy \<open>\s+\<close> first takes the whole run of whitespace and gives
  characters back one at a time, down to one, until the rest matches.
\<close>

fun spaces_then_text :: "nat \<Rightarrow> string \<Rightarrow> string option" where
  "spaces_then_text 0 s = None"
| "spaces_then_text (Suc j) s =
     (case text_to_end (drop (Suc j) s) of
        Some v \<Rightarrow> Some v
      | None \<Rightarrow> spaces_then_text j s)"

definition re_spaces_text :: "string \<Rightarrow> string option" where
  "re_spaces_text s = spaces_then_text (length (takeWhile isspace s)) s"

text \<open>
  \<open>re_heading = r'^(\*+)\s+(.+?)$'\<close> under \<open>re.match\<close>: the greedy \<open>\*+\<close> takes all
  leading stars first and backtracks to fewer, down to one. The result is
  \<open>match.groups()\<close>.
\<close>

fun stars_then :: "nat \<Rightarrow> string \<Rightarrow> (string \<times> string) option" where
  "stars_then 0 s = None"
| "stars_then (Suc n) s =
     (case re_spaces_text (drop (Suc n) s) of
        Some v \<Rightarrow> Some (take (Suc n) s, v)
      | None \<Rightarrow> stars_then n s)"

definition re_heading :: "string \<Rightarrow> (string \<times> string) option" where
  "re_heading line = stars_then (length (takeWhile (\<lambda>c. c = CHR ''*'') line)) line"

text \<open>
  \<open>re_meta = r'^#\+(.+?):\s+(.+?)$'\<close> under \<open>re.match\<close>: the lazy key group grows one
  character (other than newline) at a time until \<open>:\s+(.+?)$\<close> matches what follows.
\<close>

fun key_then :: "string \<Rightarrow> string \<Rightarrow> (string \<times> string) option" where
  "key_then key [] = None"
| "key_then key (c # cs) =
     (if c = newline then None
      else case (case cs of
                   [] \<Rightarrow> None
                 | d # ds \<Rightarrow> if d = CHR '':'' then re_spaces_text ds else None) of
             Some v \<Rightarrow> Some (key @ [c], v)
           | None \<Rightarrow> key_then (key @ [c]) cs)"

definition re_meta :: "string \<Rightarrow> (string \<times> string) option" where
  "re_meta line =
     (case line of
        a # b # rest \<Rightarrow>
          if a = CHR ''#'' \<and> b = CHR ''+'' then key_then [] rest else None
      | _ \<Rightarrow> None)"

section \<open>Nodes\<close>

text \<open>
  The dataclass \<open>Node\<close>. Nodes are mutable objects shared between the tree and the stack,
  so they live in a store (\<open>heap\<close>, below) and \<open>children\<close> holds addresses.
\<close>

record Node =
  topic :: string
  level :: int
  id' :: string
  isroot :: bool
  expended :: bool
  direction :: string
  children :: "nat list"
  background_color :: "string option"
  foreground_color :: "string option"

text \<open>
  \<open>Node(topic, level=.., background_color=.., foreground_color=..)\<close>: the other fields
  take the defaults of lines 19 to 24; \<open>uid\<close> is the value of \<open>uuid.uuid4().hex\<close>.
\<close>

definition new_Node ::
  "string \<Rightarrow> int \<Rightarrow> string option \<Rightarrow> string option \<Rightarrow> string \<Rightarrow> Node" where
  "new_Node t l bg fg uid =
     \<lparr>topic = t, level = l, id' = uid, isroot = False, expended = True,
      direction = ''right'', children = [], background_color = bg,
      foreground_color = fg\<rparr>"

section \<open>The colour allocator\<close>

definition colors :: "string list" where
  "colors = [''#5EBD3E'', ''#FFB900'', ''#F78200'', ''#E23838'', ''#973999'', ''#009CDF'']"

text \<open>
  The generator of module \<open>random\<close> is not part of the repository. It is represented by
  the sequence \<open>g\<close> of raw values it yields from now on; \<open>random.choice(xs)\<close> consumes one
  of them and returns \<open>xs[raw mod len(xs)]\<close>, so every sequence of indices a generator
  can produce is covered. \<open>random.seed(args.seed)\<close> of the main program fixes this
  sequence: the same seed gives the same \<open>g\<close>.
\<close>

definition random_choice :: "(nat \<Rightarrow> nat) \<Rightarrow> nat \<Rightarrow> 'a list \<Rightarrow> 'a" where
  "random_choice g i xs = xs ! (g i mod length xs)"

text \<open>
  The \<open>while True\<close> loop of \<open>random_color\<close>; \<open>last_c\<close> is the function attribute
  \<open>random_color.last_color\<close> (\<open>None\<close> while the attribute does not exist), \<open>i\<close> the number
  of raw values consumed so far. \<open>None\<close> as a result means that the loop never exits.
\<close>

partial_function (option) random_color_loop ::
  "(nat \<Rightarrow> nat) \<Rightarrow> string option \<Rightarrow> nat \<Rightarrow> (string \<times> nat) option" where
  "random_color_loop g last_c i =
     (if last_c = None \<or> Some (random_choice g i colors) \<noteq> last_c
      then Some (random_choice g i colors, Suc i)
      else random_color_loop g last_c (Suc i))"

declare random_color_loop.simps [code]

section \<open>The parser\<close>

text \<open>
  The local variables of \<open>org2mind\<close> (those that clash with a field of \<open>Node\<close> carry the
  suffix \<open>_v\<close>), the store of nodes, and the state outside the function: the attribute
  \<open>random_color.last_color\<close>, the number of raw random values consumed and the number of
  uuids drawn. \<open>root\<close> is the address of the first node allocated.
\<close>

record state =
  meta :: "string \<rightharpoonup> pyval"
  background_color_v :: "string option"
  direction_v :: int
  level_v :: int
  stack :: "nat list"
  heap :: "Node list"
  last_color :: "string option"
  rand_pos :: nat
  uuid_pos :: nat

definition root :: nat where
  "root = 0"

definition foreground_color_v :: string where
  "foreground_color_v = ''#ffffff''"

definition directions :: "string list" where
  "directions = [''right'', ''left'']"

text \<open>\<open>random_color()\<close> on the state: the loop, then \<open>random_color.last_color = color\<close>.\<close>

definition random_color :: "(nat \<Rightarrow> nat) \<Rightarrow> state \<Rightarrow> (string \<times> state) option" where
  "random_color g st =
     (case random_color_loop g (last_color st) (rand_pos st) of
        None \<Rightarrow> None
      | Some (color, i) \<Rightarrow> Some (color, st\<lparr>last_color := Some color, rand_pos := i\<rparr>))"

text \<open>
  Creating a node draws the next uuid of the sequence \<open>u\<close> (the values that successive
  calls of \<open>uuid.uuid4().hex\<close> return) and puts the node at a fresh address.
\<close>

definition alloc_Node ::
  "(nat \<Rightarrow> string) \<Rightarrow> string \<Rightarrow> int \<Rightarrow> string option \<Rightarrow> string option \<Rightarrow> state
     \<Rightarrow> nat \<times> state" where
  "alloc_Node u t l bg fg st =
     (length (heap st),
      st\<lparr>heap := heap st @ [new_Node t l bg fg (u (uuid_pos st))],
         uuid_pos := Suc (uuid_pos st)\<rparr>)"

definition update_node :: "nat \<Rightarrow> (Node \<Rightarrow> Node) \<Rightarrow> state \<Rightarrow> state" where
  "update_node a f st = st\<lparr>heap := (heap st)[a := f (heap st ! a)]\<rparr>"

text \<open>\<open>Node.add_child\<close>: \<open>self.children += [node]\<close>.\<close>

definition add_child :: "nat \<Rightarrow> nat \<Rightarrow> state \<Rightarrow> state" where
  "add_child self node st = update_node self (\<lambda>n. n\<lparr>children := children n @ [node]\<rparr>) st"

text \<open>Lines 142 to 148.\<close>

definition parse_meta :: "string \<Rightarrow> state \<Rightarrow> state" where
  "parse_meta line st =
     (case re_meta line of
        None \<Rightarrow> st
      | Some (meta_key, meta_value) \<Rightarrow>
          (let st1 = st\<lparr>meta := (meta st)(meta_key \<mapsto> PyStr meta_value)\<rparr>
           in if lower meta_key = ''title''
              then update_node root (\<lambda>n. n\<lparr>topic := meta_value\<rparr>) st1
              else st1))"

text \<open>Lines 160 to 164, for the node at address \<open>node\<close>.\<close>

definition first_level_node ::
  "(nat \<Rightarrow> nat) \<Rightarrow> nat \<Rightarrow> state \<Rightarrow> (error + state) option" where
  "first_level_node g node st =
     (case py_index directions (direction_v st) of
        Inl e \<Rightarrow> Some (Inl e)
      | Inr d \<Rightarrow>
          (let st1 = update_node node (\<lambda>n. n\<lparr>direction := d\<rparr>) st;
               st2 = st1\<lparr>direction_v := 1 - direction_v st1\<rparr>
           in case random_color g st2 of
                None \<Rightarrow> None
              | Some (c, st3) \<Rightarrow>
                  (let st4 = st3\<lparr>background_color_v := Some c\<rparr>
                   in Some (Inr (update_node node
                        (\<lambda>n. n\<lparr>background_color := background_color_v st4\<rparr>) st4)))))"

text \<open>Lines 166 to 172.\<close>

definition attach :: "nat \<Rightarrow> int \<Rightarrow> state \<Rightarrow> error + state" where
  "attach node current_level st =
     (let st1 = (if current_level \<le> level_v st
                 then st\<lparr>stack := filter (\<lambda>x. level (heap st ! x) < current_level) (stack st)\<rparr>
                 else st)
      in case py_index (stack st1) (- 1) of
           Inl e \<Rightarrow> Inl e
         | Inr parent \<Rightarrow>
             (let st2 = add_child parent node st1;
                  st3 = st2\<lparr>stack := stack st2 @ [node]\<rparr>
              in Inr (st3\<lparr>level_v := current_level\<rparr>)))"

text \<open>Lines 151 to 172.\<close>

definition parse_heading ::
  "(nat \<Rightarrow> nat) \<Rightarrow> (nat \<Rightarrow> string) \<Rightarrow> string \<Rightarrow> state \<Rightarrow> (error + state) option" where
  "parse_heading g u line st =
     (case re_heading line of
        None \<Rightarrow> Some (Inr st)
      | Some (stars, heading) \<Rightarrow>
          (let current_level = int (length stars);
               (node, st1) = alloc_Node u heading current_level (background_color_v st)
                               (Some foreground_color_v) st
           in case (if current_level = 1 then first_level_node g node st1
                    else Some (Inr st1)) of
                None \<Rightarrow> None
              | Some (Inl e) \<Rightarrow> Some (Inl e)
              | Some (Inr st2) \<Rightarrow> Some (attach node current_level st2)))"

text \<open>The body of the loop over the lines of the file, lines 137 to 172.\<close>

definition process_line ::
  "(nat \<Rightarrow> nat) \<Rightarrow> (nat \<Rightarrow> string) \<Rightarrow> string \<Rightarrow> state \<Rightarrow> (error + state) option" where
  "process_line g u line st =
     (let line1 = strip line
      in if line1 = [] then Some (Inr st)
         else parse_heading g u line1 (parse_meta line1 st))"

fun run_lines ::
  "(nat \<Rightarrow> nat) \<Rightarrow> (nat \<Rightarrow> string) \<Rightarrow> string list \<Rightarrow> state \<Rightarrow> (error + state) option" where
  "run_lines g u [] st = Some (Inr st)"
| "run_lines g u (line # fd) st =
     (case process_line g u line st of
        None \<Rightarrow> None
      | Some (Inl e) \<Rightarrow> Some (Inl e)
      | Some (Inr st1) \<Rightarrow> run_lines g u fd st1)"

text \<open>Lines 124 to 129, before the root is created.\<close>

definition initial :: "string option \<Rightarrow> state" where
  "initial last_c =
     \<lparr>meta = [''version'' \<mapsto> PyFloat 2 (- 1)], background_color_v = None,
      direction_v = 0, level_v = - 1, stack = [], heap = [],
      last_color = last_c, rand_pos = 0, uuid_pos = 0\<rparr>"

text \<open>
  Lines 131 to 134: the root and the stack. Python evaluates the arguments of
  \<open>Node('root', background_color=random_color(), ..)\<close> before the default factory of
  \<open>id\<close> runs. \<open>last_c\<close> is \<open>random_color.last_color\<close> when \<open>org2mind\<close> is called.
\<close>

definition start :: "(nat \<Rightarrow> nat) \<Rightarrow> (nat \<Rightarrow> string) \<Rightarrow> string option \<Rightarrow> state option" where
  "start g u last_c =
     (case random_color g (initial last_c) of
        None \<Rightarrow> None
      | Some (c, st0) \<Rightarrow>
          (let (r, st1) = alloc_Node u ''root'' 0 (Some c) (Some foreground_color_v) st0
           in Some (st1\<lparr>stack := [r]\<rparr>)))"

text \<open>
  \<open>org2mind\<close> up to line 172, on the lines \<open>fd\<close> that iterating over the file yields:
  the result is the state from which \<open>mind\<close> is serialised, that is \<open>meta\<close> and the tree
  under \<open>root\<close>.
\<close>

definition org2mind ::
  "(nat \<Rightarrow> nat) \<Rightarrow> (nat \<Rightarrow> string) \<Rightarrow> string option \<Rightarrow> string list
     \<Rightarrow> (error + state) option" where
  "org2mind g u last_c fd =
     (case start g u last_c of
        None \<Rightarrow> None
      | Some st \<Rightarrow> run_lines g u fd st)"

text \<open>
  Lines 241 to 250, one run of the program: \<open>random.seed(args.seed)\<close>, then \<open>org2mind\<close> on
  the file. The interpreter is fresh, so \<open>random_color\<close> has no attribute \<open>last_color\<close>
  yet. \<open>seeded seed\<close> is the sequence of raw values of the generator once it is seeded
  with \<open>seed\<close>; seeding belongs to module \<open>random\<close> and is a parameter.
\<close>

definition main ::
  "(int \<Rightarrow> nat \<Rightarrow> nat) \<Rightarrow> (nat \<Rightarrow> string) \<Rightarrow> int \<Rightarrow> string list
     \<Rightarrow> (error + state) option" where
  "main seeded u seed fd = org2mind (seeded seed) u None fd"

section \<open>Notions used to state the properties\<close>

text \<open>\<open>n\<close> successive calls of \<open>random_color()\<close>: the colours returned and the state left.\<close>

fun random_colors :: "(nat \<Rightarrow> nat) \<Rightarrow> nat \<Rightarrow> state \<Rightarrow> (string list \<times> state) option" where
  "random_colors g 0 st = Some ([], st)"
| "random_colors g (Suc n) st =
     (case random_color g st of
        None \<Rightarrow> None
      | Some (c, st1) \<Rightarrow>
          (case random_colors g n st1 of
             None \<Rightarrow> None
           | Some (cs, st2) \<Rightarrow> Some (c # cs, st2)))"

text \<open>
  The state is well formed: the root is at address 0 with level 0, every other node has
  a positive level, the stack starts with the root, holds addresses of the store only,
  none of a level above that of the last heading, and \<open>direction\<close> is 0 or 1.
\<close>

definition wf :: "state \<Rightarrow> bool" where
  "wf st \<longleftrightarrow>
     heap st \<noteq> [] \<and> level (heap st ! 0) = 0 \<and>
     (\<forall>k<length (heap st). 0 < k \<longrightarrow> 1 \<le> level (heap st ! k)) \<and>
     stack st \<noteq> [] \<and> hd (stack st) = 0 \<and>
     (\<forall>a\<in>set (stack st). a < length (heap st)) \<and>
     (\<forall>a\<in>set (stack st). level (heap st ! a) \<le> max 0 (level_v st)) \<and>
     (direction_v st = 0 \<or> direction_v st = 1)"

text \<open>
  The effect of lines 142 to 148 in general form: a new \<open>meta\<close> and a new topic of the
  root, nothing else.
\<close>

definition retitled :: "(string \<rightharpoonup> pyval) \<Rightarrow> string \<Rightarrow> state \<Rightarrow> state" where
  "retitled m tp s = s\<lparr>meta := m, heap := (heap s)[root := (heap s ! root)\<lparr>topic := tp\<rparr>]\<rparr>"

text \<open>What the properties of directions and colours read of a node.\<close>

definition look :: "Node \<Rightarrow> int \<times> string \<times> string option" where
  "look n = (level n, direction n, background_color n)"

text \<open>
  The depths of the heading lines of a file, in order: a line counts when, once stripped,
  it matches the heading pattern, and its depth is the number of stars matched.
\<close>

definition heading_depths :: "string list \<Rightarrow> nat list" where
  "heading_depths fd =
     concat (map (\<lambda>l. case re_heading (strip l) of
                          None \<Rightarrow> []
                        | Some (stars, t) \<Rightarrow> [length stars]) fd)"

text \<open>
  The branch of the node at address \<open>k\<close>, given the levels of the nodes in the order of
  their creation: the address of the nearest node of level 1 at or before \<open>k\<close>, if any.
\<close>

fun branch_head :: "int list \<Rightarrow> nat \<Rightarrow> nat option" where
  "branch_head ls 0 = (if ls ! 0 = 1 then Some 0 else None)"
| "branch_head ls (Suc k) = (if ls ! Suc k = 1 then Some (Suc k) else branch_head ls k)"

text \<open>What a run returned, for statements on one concrete run.\<close>

definition result_heap :: "(error + state) option \<Rightarrow> Node list" where
  "result_heap r = (case r of Some (Inr st) \<Rightarrow> heap st | _ \<Rightarrow> [])"

definition result_meta :: "(error + state) option \<Rightarrow> (string \<rightharpoonup> pyval)" where
  "result_meta r = (case r of Some (Inr st) \<Rightarrow> meta st | _ \<Rightarrow> Map.empty)"

text \<open>The keys of the metadata lines of a file, in order.\<close>

definition meta_keys :: "string list \<Rightarrow> string list" where
  "meta_keys fd =
     concat (map (\<lambda>l. case re_meta (strip l) of
                          None \<Rightarrow> []
                        | Some (k, v) \<Rightarrow> [k]) fd)"

text \<open>
  The address of the node of the nearest heading of depth below \<open>D\<close> among the headings
  of depths \<open>ds\<close> (the node of the heading number \<open>i\<close>, counted from 0, is at address
  \<open>Suc i\<close>), and the root when there is no such heading.
\<close>

definition parent_of :: "nat list \<Rightarrow> nat \<Rightarrow> nat" where
  "parent_of ds D =
     (case filter (\<lambda>i. ds ! i < D) (rev [0..<length ds]) of
        [] \<Rightarrow> root
      | i # _ \<Rightarrow> Suc i)"

text \<open>
  The same for the node at address \<open>k\<close> (from 1 on) of a file whose headings have the
  depths \<open>ds\<close>: the nearest heading before its own of a depth below its own.
\<close>

definition parent_at :: "nat list \<Rightarrow> nat \<Rightarrow> nat" where
  "parent_at ds k = parent_of (take (k - 1) ds) (ds ! (k - 1))"

text \<open>
  A random source under which the retry loop of the allocator always exits: from every
  position on, whatever colour is excluded, a different one comes up.
\<close>

definition fair :: "(nat \<Rightarrow> nat) \<Rightarrow> bool" where
  "fair g \<longleftrightarrow> (\<forall>i c. \<exists>n. random_choice g (i + n) colors \<noteq> c)"

text \<open>A state without the ids of its nodes.\<close>

definition forget_ids :: "state \<Rightarrow> state" where
  "forget_ids st = st\<lparr>heap := map (\<lambda>n. n\<lparr>id' := []\<rparr>) (heap st)\<rparr>"

text \<open>Sample sources of random values and of uuids, and a sample file.\<close>

definition ex_draws :: "nat \<Rightarrow> nat" where
  "ex_draws i = i"

definition ex_uuids :: "nat \<Rightarrow> string" where
  "ex_uuids i = replicate (Suc i) CHR ''a''"

definition ex_file :: "string list" where
  "ex_file = [''#+TITLE: Plan'', ''* A'', ''** A1'', [], ''* B'', ''not a heading'']"

text \<open>A random source that yields the same value forever, and a second source of uuids.\<close>

definition stuck_draws :: "nat \<Rightarrow> nat" where
  "stuck_draws i = 0"

definition other_uuids :: "nat \<Rightarrow> string" where
  "other_uuids i = replicate (Suc i) CHR ''b''"

definition ex_jump_file :: "string list" where
  "ex_jump_file = [''* A'', ''**** D'', ''** B'', ''** C'']"

definition ex_deep_file :: "string list" where
  "ex_deep_file = [''*** Deep'', ''* A'', ''** A1'']"

section \<open>The retry loop of the allocator\<close>

lemma random_choice_colors: "random_choice g i colors \<in> set colors"
  unfolding random_choice_def by (rule nth_mem) (simp add: colors_def)

lemma random_color_loop_SomeD:
  assumes h: "random_color_loop g last_c i = Some r"
  shows "fst r \<in> set colors \<and> last_c \<noteq> Some (fst r) \<and> i < snd r"
proof (rule random_color_loop.raw_induct
    [where P = "\<lambda>g l i r. fst r \<in> set colors \<and> l \<noteq> Some (fst r) \<and> i < snd r", OF _ h])
  fix loop :: "(nat \<Rightarrow> nat) \<Rightarrow> string option \<Rightarrow> nat \<Rightarrow> (string \<times> nat) option"
  fix g l i r
  assume IH: "\<And>g l i r. loop g l i = Some r
                \<Longrightarrow> fst r \<in> set colors \<and> l \<noteq> Some (fst r) \<and> i < snd r"
  assume body: "(if l = None \<or> Some (random_choice g i colors) \<noteq> l
                 then Some (random_choice g i colors, Suc i)
                 else loop g l (Suc i)) = Some r"
  show "fst r \<in> set colors \<and> l \<noteq> Some (fst r) \<and> i < snd r"
  proof (cases "l = None \<or> Some (random_choice g i colors) \<noteq> l")
    case True
    with body have "r = (random_choice g i colors, Suc i)" by simp
    with True show ?thesis by (auto simp: random_choice_colors)
  next
    case False
    with body have "loop g l (Suc i) = Some r" by simp
    from IH[OF this] show ?thesis by auto
  qed
qed

lemma random_color_SomeD:
  assumes "random_color g st = Some (c, st1)"
  shows "c \<in> set colors" and "last_color st \<noteq> Some c" and "last_color st1 = Some c"
    and "\<exists>j. st1 = st\<lparr>last_color := Some c, rand_pos := j\<rparr>"
  using assms random_color_loop_SomeD[of g "last_color st" "rand_pos st"]
  by (auto simp: random_color_def split: option.splits)

lemma random_color_loop_first:
  "random_color_loop g None i = Some (random_choice g i colors, Suc i)"
  by (subst random_color_loop.simps) simp

lemma random_color_loop_accept:
  "Some (random_choice g i colors) \<noteq> last_c
   \<Longrightarrow> random_color_loop g last_c i = Some (random_choice g i colors, Suc i)"
  by (subst random_color_loop.simps) simp

lemma random_color_loop_retry:
  "last_c = Some (random_choice g i colors)
   \<Longrightarrow> random_color_loop g last_c i = random_color_loop g last_c (Suc i)"
  by (subst random_color_loop.simps) simp

lemma ex_choice:
  "random_choice ex_draws 0 colors = ''#5EBD3E''"
  "random_choice ex_draws (Suc 0) colors = ''#FFB900''"
  "random_choice ex_draws (Suc (Suc 0)) colors = ''#F78200''"
  by (simp_all add: random_choice_def ex_draws_def colors_def)


lemma random_color_loop_stuck:
  assumes h: "random_color_loop g last_c i = Some r"
  shows "last_c = None \<or> (\<exists>j\<ge>i. Some (random_choice g j colors) \<noteq> last_c)"
proof (rule random_color_loop.raw_induct
    [where P = "\<lambda>g l i r. l = None \<or> (\<exists>j\<ge>i. Some (random_choice g j colors) \<noteq> l)", OF _ h])
  fix loop :: "(nat \<Rightarrow> nat) \<Rightarrow> string option \<Rightarrow> nat \<Rightarrow> (string \<times> nat) option"
  fix g l i r
  assume IH: "\<And>g l i r. loop g l i = Some r
                \<Longrightarrow> l = None \<or> (\<exists>j\<ge>i. Some (random_choice g j colors) \<noteq> l)"
  assume body: "(if l = None \<or> Some (random_choice g i colors) \<noteq> l
                 then Some (random_choice g i colors, Suc i)
                 else loop g l (Suc i)) = Some r"
  show "l = None \<or> (\<exists>j\<ge>i. Some (random_choice g j colors) \<noteq> l)"
  proof (cases "l = None \<or> Some (random_choice g i colors) \<noteq> l")
    case True
    then show ?thesis by auto
  next
    case False
    with body have "loop g l (Suc i) = Some r" by simp
    from IH[OF this] show ?thesis by (auto intro: Suc_leD)
  qed
qed

section \<open>The loop over the lines\<close>

lemma run_lines_append:
  "run_lines g u (xs @ ys) st =
     (case run_lines g u xs st of
        None \<Rightarrow> None
      | Some (Inl e) \<Rightarrow> Some (Inl e)
      | Some (Inr st1) \<Rightarrow> run_lines g u ys st1)"
  by (induction xs arbitrary: st) (auto split: option.splits sum.splits)

lemma run_lines_snoc:
  "run_lines g u (xs @ [x]) st =
     (case run_lines g u xs st of
        None \<Rightarrow> None
      | Some (Inl e) \<Rightarrow> Some (Inl e)
      | Some (Inr st1) \<Rightarrow> process_line g u x st1)"
  by (simp add: run_lines_append split: option.splits sum.splits)

lemma org2mind_Nil: "org2mind g u last_c [] = map_option Inr (start g u last_c)"
  by (simp add: org2mind_def split: option.splits)

lemma org2mind_snoc:
  "org2mind g u last_c (xs @ [x]) =
     (case org2mind g u last_c xs of
        None \<Rightarrow> None
      | Some (Inl e) \<Rightarrow> Some (Inl e)
      | Some (Inr st1) \<Rightarrow> process_line g u x st1)"
  by (simp add: org2mind_def run_lines_snoc split: option.splits)

lemma org2mind_induct [consumes 1, case_names start line]:
  assumes run: "org2mind g u last_c fd = Some (Inr st)"
    and base: "\<And>st0. start g u last_c = Some st0 \<Longrightarrow> P [] st0"
    and step: "\<And>xs x s s'. org2mind g u last_c xs = Some (Inr s) \<Longrightarrow> P xs s
                 \<Longrightarrow> process_line g u x s = Some (Inr s') \<Longrightarrow> P (xs @ [x]) s'"
  shows "P fd st"
  using run
proof (induction fd arbitrary: st rule: rev_induct)
  case Nil
  then show ?case by (auto simp: org2mind_Nil intro: base)
next
  case (snoc x xs)
  from snoc.prems obtain s where s: "org2mind g u last_c xs = Some (Inr s)"
    and p: "process_line g u x s = Some (Inr st)"
    by (auto simp: org2mind_snoc split: option.splits sum.splits)
  from step[OF s snoc.IH[OF s] p] show ?case .
qed

lemma process_line_skip:
  assumes "strip l = [] \<or> (re_meta (strip l) = None \<and> re_heading (strip l) = None)"
  shows "process_line g u l st = Some (Inr st)"
  using assms by (auto simp: process_line_def parse_meta_def parse_heading_def Let_def)

section \<open>One heading line\<close>

lemma stars_then_length:
  "stars_then n s = Some (stars, t) \<Longrightarrow> n \<le> length s \<Longrightarrow> 1 \<le> length stars"
  by (induction n) (auto split: option.splits)

lemma re_heading_depth: "re_heading line = Some (stars, t) \<Longrightarrow> 1 \<le> length stars"
  unfolding re_heading_def
  by (erule stars_then_length) (rule length_takeWhile_le)

lemma py_index_last: "xs \<noteq> [] \<Longrightarrow> py_index xs (- 1) = Inr (last xs)"
  by (cases xs rule: rev_cases) (simp_all add: py_index_def)

lemma py_index_directions:
  "d = 0 \<or> d = 1 \<Longrightarrow> py_index directions d = Inr (if d = 0 then ''right'' else ''left'')"
  by (auto simp: py_index_def directions_def)

lemma filter_stack:
  assumes "wf s" "1 \<le> D"
  shows "filter (\<lambda>a. level (heap s ! a) < D) (stack s) \<noteq> []"
    and "hd (filter (\<lambda>a. level (heap s ! a) < D) (stack s)) = 0"
    and "\<not> D \<le> level_v s \<Longrightarrow> filter (\<lambda>a. level (heap s ! a) < D) (stack s) = stack s"
proof -
  from assms obtain r where st: "stack s = 0 # r" and l0: "level (heap s ! 0) = 0"
    by (cases "stack s") (auto simp: wf_def)
  with assms show "filter (\<lambda>a. level (heap s ! a) < D) (stack s) \<noteq> []"
    and "hd (filter (\<lambda>a. level (heap s ! a) < D) (stack s)) = 0" by auto
  assume "\<not> D \<le> level_v s"
  with assms have "\<forall>a\<in>set (stack s). level (heap s ! a) < D"
    by (auto simp: wf_def)
  then show "filter (\<lambda>a. level (heap s ! a) < D) (stack s) = stack s" by simp
qed

lemma attach_step:
  assumes wf: "wf s" and D: "1 \<le> D"
    and h2: "heap s2 = heap s @ [nd]" and s2: "stack s2 = stack s" "level_v s2 = level_v s"
  defines "filt \<equiv> filter (\<lambda>a. level (heap s ! a) < D) (stack s)"
  shows "attach (length (heap s)) D s2 =
           Inr (s2\<lparr>stack := filt @ [length (heap s)],
                   heap := (heap s)[last filt := (heap s ! last filt)
                              \<lparr>children := children (heap s ! last filt) @ [length (heap s)]\<rparr>] @ [nd],
                   level_v := D\<rparr>)"
proof -
  have in_heap: "\<forall>a\<in>set (stack s). a < length (heap s)" using wf by (simp add: wf_def)
  then have same: "filter (\<lambda>x. level (heap s2 ! x) < D) (stack s) = filt"
    unfolding filt_def h2 by (intro filter_cong) (auto simp: nth_append)
  have ne: "filt \<noteq> []" unfolding filt_def by (rule filter_stack[OF wf D])
  have "last filt \<in> set (stack s)" using ne last_in_set[OF ne] unfolding filt_def by auto
  with in_heap have lt: "last filt < length (heap s)" by auto
  have upd: "(heap s @ [nd])[last filt := x] = (heap s)[last filt := x] @ [nd]" for x
    using lt by (simp add: list_update_append)
  have nth: "(heap s @ [nd]) ! last filt = heap s ! last filt"
    using lt by (simp add: nth_append)
  show ?thesis
  proof (cases "D \<le> level_v s")
    case True
    then show ?thesis
      using ne same upd nth
      by (simp add: attach_def Let_def s2 py_index_last add_child_def update_node_def h2)
  next
    case False
    from filter_stack(3)[OF wf D False] have eq: "filt = stack s" unfolding filt_def .
    with ne have ne': "stack s \<noteq> []" by simp
    show ?thesis
      using False ne' upd nth s2
      by (simp add: attach_def Let_def py_index_last add_child_def update_node_def h2 eq[symmetric])
  qed
qed

text \<open>The node that a heading line creates, as it is once the line is processed.\<close>

lemma parse_heading_step:
  assumes ph: "parse_heading g u line s = Some (Inr s')"
    and re: "re_heading line = Some (stars, t)" and wf: "wf s"
  defines "D \<equiv> int (length stars)"
  defines "filt \<equiv> filter (\<lambda>a. level (heap s ! a) < D) (stack s)"
  shows "\<exists>nd. heap s' = (heap s)[last filt := (heap s ! last filt)
                  \<lparr>children := children (heap s ! last filt) @ [length (heap s)]\<rparr>] @ [nd]
     \<and> topic nd = t \<and> level nd = D \<and> id' nd = u (uuid_pos s) \<and> \<not> isroot nd
     \<and> children nd = []
     \<and> stack s' = filt @ [length (heap s)]
     \<and> level_v s' = D \<and> meta s' = meta s \<and> uuid_pos s' = Suc (uuid_pos s)
     \<and> (if D = 1
         then direction nd = (if direction_v s = 0 then ''right'' else ''left'')
            \<and> direction_v s' = 1 - direction_v s
            \<and> (\<exists>c j. random_color_loop g (last_color s) (rand_pos s) = Some (c, j)
                 \<and> last_color s' = Some c \<and> rand_pos s' = j
                 \<and> background_color_v s' = Some c \<and> background_color nd = Some c)
         else direction nd = ''right'' \<and> direction_v s' = direction_v s
            \<and> last_color s' = last_color s \<and> rand_pos s' = rand_pos s
            \<and> background_color_v s' = background_color_v s
            \<and> background_color nd = background_color_v s)"
proof -
  have D1: "1 \<le> D" using re_heading_depth[OF re] by (simp add: D_def)
  have dir: "direction_v s = 0 \<or> direction_v s = 1" using wf by (simp add: wf_def)
  define n0 where "n0 = new_Node t D (background_color_v s) (Some foreground_color_v) (u (uuid_pos s))"
  define s1 where "s1 = s\<lparr>heap := heap s @ [n0], uuid_pos := Suc (uuid_pos s)\<rparr>"
  have alloc: "alloc_Node u t D (background_color_v s) (Some foreground_color_v) s
                 = (length (heap s), s1)"
    by (simp add: alloc_Node_def s1_def n0_def)
  have ls: "(length stars = Suc 0) = (D = 1)" by (auto simp: D_def)
  show ?thesis
  proof (cases "D = 1")
    case False
    with ph re alloc ls have "Some (attach (length (heap s)) D s1) = Some (Inr s')"
      by (simp add: parse_heading_def D_def[symmetric])
    moreover have "attach (length (heap s)) D s1 = Inr (s1\<lparr>stack := filt @ [length (heap s)],
                   heap := (heap s)[last filt := (heap s ! last filt)
                              \<lparr>children := children (heap s ! last filt) @ [length (heap s)]\<rparr>] @ [n0],
                   level_v := D\<rparr>)"
      unfolding filt_def by (rule attach_step[OF wf D1]) (simp_all add: s1_def)
    ultimately have "s' = s1\<lparr>stack := filt @ [length (heap s)],
                   heap := (heap s)[last filt := (heap s ! last filt)
                              \<lparr>children := children (heap s ! last filt) @ [length (heap s)]\<rparr>] @ [n0],
                   level_v := D\<rparr>" by simp
    with False show ?thesis
      by (intro exI[of _ n0]) (simp add: s1_def n0_def new_Node_def)
  next
    case True
    from ph re alloc True ls obtain r where
      f: "first_level_node g (length (heap s)) s1 = Some (Inr r)"
      and a: "attach (length (heap s)) D r = Inr s'"
      by (auto simp: parse_heading_def D_def[symmetric] split: option.splits sum.splits)
    from f dir obtain c j where
      loop: "random_color_loop g (last_color s) (rand_pos s) = Some (c, j)"
      and r: "r = s1\<lparr>heap := heap s @ [n0\<lparr>direction := (if direction_v s = 0 then ''right'' else ''left''),
                                          background_color := Some c\<rparr>],
                     direction_v := 1 - direction_v s, last_color := Some c, rand_pos := j,
                     background_color_v := Some c\<rparr>"
      by (auto simp: first_level_node_def py_index_directions Let_def update_node_def
          random_color_def s1_def split: option.splits)
    define n1 where "n1 = n0\<lparr>direction := (if direction_v s = 0 then ''right'' else ''left''),
                                          background_color := Some c\<rparr>"
    have "attach (length (heap s)) D r = Inr (r\<lparr>stack := filt @ [length (heap s)],
                   heap := (heap s)[last filt := (heap s ! last filt)
                              \<lparr>children := children (heap s ! last filt) @ [length (heap s)]\<rparr>] @ [n1],
                   level_v := D\<rparr>)"
      unfolding filt_def by (rule attach_step[OF wf D1]) (simp_all add: r s1_def n1_def)
    with a have "s' = r\<lparr>stack := filt @ [length (heap s)],
                   heap := (heap s)[last filt := (heap s ! last filt)
                              \<lparr>children := children (heap s ! last filt) @ [length (heap s)]\<rparr>] @ [n1],
                   level_v := D\<rparr>" by simp
    with True loop show ?thesis
      by (intro exI[of _ n1]) (simp add: r s1_def n1_def n0_def new_Node_def)
  qed
qed


lemma parse_meta_retitled:
  "parse_meta line s =
     retitled (case re_meta line of None \<Rightarrow> meta s | Some (k, v) \<Rightarrow> (meta s)(k \<mapsto> PyStr v))
       (case re_meta line of None \<Rightarrow> topic (heap s ! root)
        | Some (k, v) \<Rightarrow> if lower k = ''title'' then v else topic (heap s ! root)) s"
proof (cases "re_meta line")
  case None
  then show ?thesis by (simp add: parse_meta_def retitled_def)
next
  case (Some kv)
  obtain k v where kv: "kv = (k, v)" by (cases kv)
  show ?thesis
    by (simp add: Some kv parse_meta_def retitled_def update_node_def Let_def)
qed

lemma retitled_fields [simp]:
  "stack (retitled m tp s) = stack s"
  "level_v (retitled m tp s) = level_v s"
  "direction_v (retitled m tp s) = direction_v s"
  "background_color_v (retitled m tp s) = background_color_v s"
  "last_color (retitled m tp s) = last_color s"
  "rand_pos (retitled m tp s) = rand_pos s"
  "uuid_pos (retitled m tp s) = uuid_pos s"
  "meta (retitled m tp s) = m"
  "length (heap (retitled m tp s)) = length (heap s)"
  by (simp_all add: retitled_def)

lemma retitled_heap_nth:
  "heap (retitled m tp s) ! a =
     (if a = root \<and> root < length (heap s) then (heap s ! root)\<lparr>topic := tp\<rparr> else heap s ! a)"
proof (cases "root < length (heap s)")
  case True
  then show ?thesis by (simp add: retitled_def nth_list_update)
next
  case False
  then have "(heap s)[root := x] = heap s" for x by (simp add: list_update_beyond)
  with False show ?thesis by (simp add: retitled_def)
qed

lemma retitled_nth [simp]:
  "level (heap (retitled m tp s) ! a) = level (heap s ! a)"
  "children (heap (retitled m tp s) ! a) = children (heap s ! a)"
  "direction (heap (retitled m tp s) ! a) = direction (heap s ! a)"
  "background_color (heap (retitled m tp s) ! a) = background_color (heap s ! a)"
  "isroot (heap (retitled m tp s) ! a) = isroot (heap s ! a)"
  "id' (heap (retitled m tp s) ! a) = id' (heap s ! a)"
  by (simp_all add: retitled_heap_nth)


lemma retitled_map [simp]:
  "map level (heap (retitled m tp s)) = map level (heap s)"
  "map children (heap (retitled m tp s)) = map children (heap s)"
  "map direction (heap (retitled m tp s)) = map direction (heap s)"
  "map background_color (heap (retitled m tp s)) = map background_color (heap s)"
  "map isroot (heap (retitled m tp s)) = map isroot (heap s)"
  "map id' (heap (retitled m tp s)) = map id' (heap s)"
  by (simp_all add: list_eq_iff_nth_eq)

lemma retitled_heap_Nil [simp]: "heap (retitled m tp s) = [] \<longleftrightarrow> heap s = []"
  by (simp add: retitled_def)

lemma wf_retitled [simp]: "wf (retitled m tp s) = wf s"
  by (simp add: wf_def)

lemma re_heading_Nil [simp]: "re_heading [] = None"
  by (simp add: re_heading_def)

lemma re_meta_Nil [simp]: "re_meta [] = None"
  by (simp add: re_meta_def)

lemma process_line_parse:
  "process_line g u x s = parse_heading g u (strip x) (parse_meta (strip x) s)"
  by (simp add: process_line_def Let_def parse_heading_def parse_meta_def)


text \<open>A line that is not a heading changes \<open>meta\<close> and the topic of the root at most.\<close>

lemma other_line_step:
  assumes "process_line g u x s = Some (Inr s')" and "re_heading (strip x) = None"
  shows "\<exists>m tp. s' = retitled m tp s"
  using assms
  by (auto simp: process_line_parse parse_heading_def parse_meta_retitled)

lemma heading_line_step:
  assumes pl: "process_line g u x s = Some (Inr s')"
    and re: "re_heading (strip x) = Some (stars, t)" and wf: "wf s"
  defines "D \<equiv> int (length stars)"
  defines "k \<equiv> length (heap s)"
  defines "p \<equiv> last (filter (\<lambda>a. level (heap s ! a) < D) (stack s))"
  shows "length (heap s') = Suc k"
    and "map level (heap s') = map level (heap s) @ [D]"
    and "map isroot (heap s') = map isroot (heap s) @ [False]"
    and "map id' (heap s') = map id' (heap s) @ [u (uuid_pos s)]"
    and "map children (heap s') = (map children (heap s))[p := children (heap s ! p) @ [k]] @ [[]]"
    and "topic (heap s' ! k) = t"
    and "stack s' = filter (\<lambda>a. level (heap s ! a) < D) (stack s) @ [k]"
    and "level_v s' = D" and "uuid_pos s' = Suc (uuid_pos s)"
    and "D = 1 \<Longrightarrow> \<exists>c j. random_color_loop g (last_color s) (rand_pos s) = Some (c, j)
           \<and> last_color s' = Some c \<and> rand_pos s' = j \<and> background_color_v s' = Some c
           \<and> map background_color (heap s') = map background_color (heap s) @ [Some c]
           \<and> map direction (heap s')
               = map direction (heap s) @ [if direction_v s = 0 then ''right'' else ''left'']
           \<and> direction_v s' = 1 - direction_v s"
    and "D \<noteq> 1 \<Longrightarrow> last_color s' = last_color s \<and> rand_pos s' = rand_pos s
           \<and> background_color_v s' = background_color_v s
           \<and> map background_color (heap s') = map background_color (heap s) @ [background_color_v s]
           \<and> map direction (heap s') = map direction (heap s) @ [''right'']
           \<and> direction_v s' = direction_v s"
    and "p < k" and "1 \<le> D" and "p \<in> set (stack s)"
proof -
  obtain m tp where pm: "parse_meta (strip x) s = retitled m tp s"
    using parse_meta_retitled by blast
  define s1 where "s1 = retitled m tp s"
  have ph: "parse_heading g u (strip x) s1 = Some (Inr s')"
    using pl by (simp add: process_line_parse pm s1_def)
  have wf1: "wf s1" using wf by (simp add: s1_def)
  have D1: "1 \<le> D" using re_heading_depth[OF re] by (simp add: D_def)
  have filt: "filter (\<lambda>a. level (heap s1 ! a) < D) (stack s1)
               = filter (\<lambda>a. level (heap s ! a) < D) (stack s)"
    by (simp add: s1_def)
  have ne: "filter (\<lambda>a. level (heap s ! a) < D) (stack s) \<noteq> []"
    by (rule filter_stack[OF wf D1])
  from last_in_set[OF ne] have pin: "p \<in> set (stack s)" by (simp add: p_def)
  with wf have pk: "p < k" by (simp add: wf_def k_def)
  let ?f = "filter (\<lambda>a. level (heap s1 ! a) < int (length stars)) (stack s1)"
  from parse_heading_step[OF ph re wf1] obtain nd where big:
    "heap s' = (heap s1)[last ?f := (heap s1 ! last ?f)
                  \<lparr>children := children (heap s1 ! last ?f) @ [length (heap s1)]\<rparr>] @ [nd]
     \<and> topic nd = t \<and> level nd = int (length stars) \<and> id' nd = u (uuid_pos s1) \<and> \<not> isroot nd
     \<and> children nd = []
     \<and> stack s' = ?f @ [length (heap s1)]
     \<and> level_v s' = int (length stars) \<and> meta s' = meta s1 \<and> uuid_pos s' = Suc (uuid_pos s1)
     \<and> (if int (length stars) = 1
         then direction nd = (if direction_v s1 = 0 then ''right'' else ''left'')
            \<and> direction_v s' = 1 - direction_v s1
            \<and> (\<exists>c j. random_color_loop g (last_color s1) (rand_pos s1) = Some (c, j)
                 \<and> last_color s' = Some c \<and> rand_pos s' = j
                 \<and> background_color_v s' = Some c \<and> background_color nd = Some c)
         else direction nd = ''right'' \<and> direction_v s' = direction_v s1
            \<and> last_color s' = last_color s1 \<and> rand_pos s' = rand_pos s1
            \<and> background_color_v s' = background_color_v s1
            \<and> background_color nd = background_color_v s1)"
    by blast
  have f: "?f = filter (\<lambda>a. level (heap s ! a) < D) (stack s)"
    by (simp add: s1_def D_def)
  have lp: "last ?f = p" by (simp add: f p_def)
  from big have h: "heap s' = (heap s1)[p := (heap s1 ! p)\<lparr>children := children (heap s ! p) @ [k]\<rparr>] @ [nd]"
    unfolding lp by (simp add: s1_def k_def)
  from big have nd: "topic nd = t" "level nd = D" "id' nd = u (uuid_pos s)" "\<not> isroot nd"
      "children nd = []"
    by (simp_all add: D_def s1_def)
  from big have st: "stack s' = filter (\<lambda>a. level (heap s ! a) < D) (stack s) @ [k]"
      "level_v s' = D" "uuid_pos s' = Suc (uuid_pos s)"
    unfolding f by (simp_all add: D_def s1_def k_def)
  from big have col: "if D = 1
         then direction nd = (if direction_v s = 0 then ''right'' else ''left'')
            \<and> direction_v s' = 1 - direction_v s
            \<and> (\<exists>c j. random_color_loop g (last_color s) (rand_pos s) = Some (c, j)
                 \<and> last_color s' = Some c \<and> rand_pos s' = j
                 \<and> background_color_v s' = Some c \<and> background_color nd = Some c)
         else direction nd = ''right'' \<and> direction_v s' = direction_v s
            \<and> last_color s' = last_color s \<and> rand_pos s' = rand_pos s
            \<and> background_color_v s' = background_color_v s
            \<and> background_color nd = background_color_v s"
    unfolding D_def by (auto simp: s1_def split: if_splits)
  have len1: "length (heap s1) = k" by (simp add: s1_def k_def)
  have keep: "map f ((heap s1)[p := (heap s1 ! p)\<lparr>children := cs\<rparr>]) = map f (heap s1)"
    if "\<And>n cs. f (n\<lparr>children := cs\<rparr>) = f n" for f :: "Node \<Rightarrow> 'b" and cs
    using pk len1 by (simp add: map_update that list_update_same_conv)
  show "length (heap s') = Suc k" by (simp add: h len1)
  show "map level (heap s') = map level (heap s) @ [D]"
    using keep[of level] by (simp add: h nd s1_def)
  show "map isroot (heap s') = map isroot (heap s) @ [False]"
    using keep[of isroot] by (simp add: h nd s1_def)
  show "map id' (heap s') = map id' (heap s) @ [u (uuid_pos s)]"
    using keep[of id'] by (simp add: h nd s1_def)
  show "map children (heap s') = (map children (heap s))[p := children (heap s ! p) @ [k]] @ [[]]"
    using pk by (simp add: h nd map_update s1_def)
  show "topic (heap s' ! k) = t" by (simp add: h nd nth_append len1)
  show "stack s' = filter (\<lambda>a. level (heap s ! a) < D) (stack s) @ [k]" by (rule st)
  show "level_v s' = D" by (rule st)
  show "uuid_pos s' = Suc (uuid_pos s)" by (rule st)
  show "D = 1 \<Longrightarrow> \<exists>c j. random_color_loop g (last_color s) (rand_pos s) = Some (c, j)
           \<and> last_color s' = Some c \<and> rand_pos s' = j \<and> background_color_v s' = Some c
           \<and> map background_color (heap s') = map background_color (heap s) @ [Some c]
           \<and> map direction (heap s')
               = map direction (heap s) @ [if direction_v s = 0 then ''right'' else ''left'']
           \<and> direction_v s' = 1 - direction_v s"
    using col keep[of background_color] keep[of direction] by (auto simp: h s1_def)
  show "D \<noteq> 1 \<Longrightarrow> last_color s' = last_color s \<and> rand_pos s' = rand_pos s
           \<and> background_color_v s' = background_color_v s
           \<and> map background_color (heap s') = map background_color (heap s) @ [background_color_v s]
           \<and> map direction (heap s') = map direction (heap s) @ [''right'']
           \<and> direction_v s' = direction_v s"
    using col keep[of background_color] keep[of direction] by (auto simp: h s1_def)
  show "p < k" by (rule pk)
  show "1 \<le> D" by (rule D1)
  show "p \<in> set (stack s)" by (rule pin)
qed

section \<open>The state stays well formed\<close>

lemma map_snoc_nth:
  assumes "map f ys = map f xs @ [v]"
  shows "length ys = Suc (length xs)" and "f (ys ! length xs) = v"
    and "a < length xs \<Longrightarrow> f (ys ! a) = f (xs ! a)"
proof -
  from assms have "length (map f ys) = length (map f xs @ [v])" by simp
  then show len: "length ys = Suc (length xs)" by simp
  have nth: "f (ys ! b) = (map f xs @ [v]) ! b" if "b < Suc (length xs)" for b
  proof -
    from that len have "f (ys ! b) = map f ys ! b" by simp
    with assms show ?thesis by simp
  qed
  from nth[of "length xs"] show "f (ys ! length xs) = v" by (simp add: nth_append)
  assume "a < length xs"
  with nth[of a] show "f (ys ! a) = f (xs ! a)" by (simp add: nth_append)
qed

lemma start_SomeD:
  assumes "start g u last_c = Some st0"
  shows "\<exists>c j. random_color_loop g last_c 0 = Some (c, j) \<and>
           st0 = \<lparr>meta = [''version'' \<mapsto> PyFloat 2 (- 1)], background_color_v = None,
                  direction_v = 0, level_v = - 1, stack = [0],
                  heap = [new_Node ''root'' 0 (Some c) (Some foreground_color_v) (u 0)],
                  last_color = Some c, rand_pos = j, uuid_pos = Suc 0\<rparr>"
  using assms
  by (auto simp: start_def random_color_def initial_def alloc_Node_def split: option.splits)

lemma wf_start: "start g u last_c = Some st0 \<Longrightarrow> wf st0"
  by (drule start_SomeD) (auto simp: wf_def new_Node_def)

lemma wf_process_line:
  assumes wf: "wf s" and pl: "process_line g u x s = Some (Inr s')"
  shows "wf s'"
proof (cases "re_heading (strip x)")
  case None
  from other_line_step[OF pl None] wf show ?thesis by auto
next
  case (Some r)
  obtain stars t where r: "r = (stars, t)" by (cases r)
  note re = Some[unfolded r]
  note hs = heading_line_step[OF pl re wf]
  let ?D = "int (length stars)"
  let ?k = "length (heap s)"
  let ?filt = "filter (\<lambda>a. level (heap s ! a) < ?D) (stack s)"
  note lv = map_snoc_nth[OF hs(2)]
  have k0: "0 < ?k" using wf by (simp add: wf_def)
  have l0: "level (heap s' ! 0) = 0" using lv(3)[OF k0] wf by (simp add: wf_def)
  have lk: "1 \<le> level (heap s' ! b)" if "b < length (heap s')" "0 < b" for b
  proof (cases "b < ?k")
    case True
    with lv(3)[OF True] wf that show ?thesis by (simp add: wf_def)
  next
    case False
    with that hs(1) have "b = ?k" by simp
    with lv(2) hs(13) show ?thesis by simp
  qed
  have sub: "set ?filt \<subseteq> set (stack s)" by auto
  have in_heap: "\<forall>a\<in>set (stack s). a < ?k" using wf by (simp add: wf_def)
  have st_lt: "\<forall>a\<in>set (stack s'). a < length (heap s')"
    using in_heap hs(1) by (auto simp: hs(7))
  have st_lv: "\<forall>a\<in>set (stack s'). level (heap s' ! a) \<le> max 0 (level_v s')"
  proof
    fix a assume "a \<in> set (stack s')"
    then consider "a \<in> set ?filt" | "a = ?k" by (auto simp: hs(7))
    then show "level (heap s' ! a) \<le> max 0 (level_v s')"
    proof cases
      case 1
      then have "a < ?k" "level (heap s ! a) < ?D" using in_heap by auto
      with lv(3)[of a] show ?thesis by (simp add: hs(8))
    next
      case 2
      with lv(2) show ?thesis by (simp add: hs(8))
    qed
  qed
  have hd0: "hd (stack s') = 0"
    using filter_stack(1,2)[OF wf hs(13)] by (simp add: hs(7))
  have dir: "direction_v s' = 0 \<or> direction_v s' = 1"
  proof (cases "?D = 1")
    case True
    from hs(10)[OF True] wf show ?thesis by (auto simp: wf_def)
  next
    case False
    from hs(11)[OF False] wf show ?thesis by (auto simp: wf_def)
  qed
  have ne: "heap s' \<noteq> []" using hs(1) by auto
  show ?thesis
    unfolding wf_def using ne l0 lk hd0 st_lt st_lv dir by (simp add: hs(7))
qed

lemma wf_org2mind: "org2mind g u last_c fd = Some (Inr st) \<Longrightarrow> wf st"
  by (induction rule: org2mind_induct) (auto intro: wf_start wf_process_line)

section \<open>Levels, directions and colours along the file\<close>

lemma look_snoc:
  assumes "map level ys = map level xs @ [l]" and "map direction ys = map direction xs @ [d]"
    and "map background_color ys = map background_color xs @ [b]"
  shows "map look ys = map look xs @ [(l, d, b)]"
proof -
  note a = map_snoc_nth[OF assms(1)] and b = map_snoc_nth[OF assms(2)]
    and c = map_snoc_nth[OF assms(3)]
  show ?thesis
  proof (rule nth_equalityI)
    show "length (map look ys) = length (map look xs @ [(l, d, b)])" using a(1) by simp
    fix i assume "i < length (map look ys)"
    then have i: "i < Suc (length xs)" using a(1) by simp
    show "map look ys ! i = (map look xs @ [(l, d, b)]) ! i"
    proof (cases "i < length xs")
      case True
      with a(3)[OF True] b(3)[OF True] c(3)[OF True] i a(1) show ?thesis
        by (simp add: nth_append look_def)
    next
      case False
      with i have "i = length xs" by simp
      with a(1,2) b(2) c(2) show ?thesis by (simp add: nth_append look_def)
    qed
  qed
qed

lemma look_retitled [simp]: "map look (heap (retitled m tp s)) = map look (heap s)"
  by (simp add: list_eq_iff_nth_eq look_def)

text \<open>What a line adds to the nodes, as far as levels, directions and colours go.\<close>

lemma look_process_line:
  assumes pl: "process_line g u x s = Some (Inr s')" and wf: "wf s"
  shows "case re_heading (strip x) of
           None \<Rightarrow> map look (heap s') = map look (heap s) \<and> direction_v s' = direction_v s
                    \<and> background_color_v s' = background_color_v s
                    \<and> last_color s' = last_color s \<and> rand_pos s' = rand_pos s
         | Some (stars, t) \<Rightarrow>
             if length stars = 1
             then \<exists>c j. random_color_loop g (last_color s) (rand_pos s) = Some (c, j)
                    \<and> last_color s' = Some c \<and> rand_pos s' = j \<and> background_color_v s' = Some c
                    \<and> direction_v s' = 1 - direction_v s
                    \<and> map look (heap s') = map look (heap s)
                          @ [(1, if direction_v s = 0 then ''right'' else ''left'', Some c)]
             else map look (heap s') = map look (heap s)
                          @ [(int (length stars), ''right'', background_color_v s)]
                  \<and> direction_v s' = direction_v s
                  \<and> background_color_v s' = background_color_v s
                  \<and> last_color s' = last_color s \<and> rand_pos s' = rand_pos s"
proof (cases "re_heading (strip x)")
  case None
  from other_line_step[OF pl None] show ?thesis by (auto simp: None)
next
  case (Some r)
  obtain stars t where r: "r = (stars, t)" by (cases r)
  note re = Some[unfolded r]
  note hs = heading_line_step[OF pl re wf]
  show ?thesis
  proof (cases "length stars = 1")
    case True
    then have D: "int (length stars) = 1" by simp
    from hs(10)[OF D] obtain c j where
      c: "random_color_loop g (last_color s) (rand_pos s) = Some (c, j)"
        "last_color s' = Some c" "rand_pos s' = j" "background_color_v s' = Some c"
        "map background_color (heap s') = map background_color (heap s) @ [Some c]"
        "map direction (heap s')
               = map direction (heap s) @ [if direction_v s = 0 then ''right'' else ''left'']"
        "direction_v s' = 1 - direction_v s"
      by blast
    from look_snoc[OF hs(2) c(6) c(5)] c True show ?thesis
      by (simp add: re)
  next
    case False
    then have D: "int (length stars) \<noteq> 1" by simp
    from hs(11)[OF D] look_snoc[OF hs(2), of "''right''" "background_color_v s"] False
    show ?thesis by (simp add: re)
  qed
qed

lemma heading_depths_snoc:
  "heading_depths (xs @ [x]) =
     heading_depths xs @ (case re_heading (strip x) of None \<Rightarrow> []
                          | Some (stars, t) \<Rightarrow> [length stars])"
  by (simp add: heading_depths_def)

lemma levels_org2mind:
  assumes "org2mind g u last_c fd = Some (Inr st)"
  shows "map level (heap st) = 0 # map int (heading_depths fd)"
  using assms
proof (induction rule: org2mind_induct)
  case (start st0)
  from start_SomeD[OF this] show ?case by (auto simp: new_Node_def heading_depths_def)
next
  case (line xs x s s')
  note wf = wf_org2mind[OF line.hyps(1)]
  show ?case
  proof (cases "re_heading (strip x)")
    case None
    from other_line_step[OF line.hyps(2) None] line.IH show ?thesis
      by (auto simp: heading_depths_snoc None)
  next
    case (Some r)
    obtain stars t where r: "r = (stars, t)" by (cases r)
    note re = Some[unfolded r]
    from heading_line_step(2)[OF line.hyps(2) re wf] line.IH show ?thesis
      by (simp add: heading_depths_snoc re)
  qed
qed

section \<open>C1: the flag of the root\<close>

text \<open>
  C1 asks that the root of the returned tree has \<open>isroot = true\<close>. The root is created
  by \<open>Node('root', background_color=.., foreground_color=..)\<close> and takes the default
  \<open>isroot = False\<close> of the dataclass; no later statement sets the field. On the file
  with the single line \<open>* A\<close> the root of the result has \<open>isroot = False\<close> (and so has
  the other node).
\<close>

theorem c1_root_isroot_false:
  "map isroot (result_heap (org2mind ex_draws ex_uuids None [''* A''])) = [False, False]"
  by code_simp

section \<open>Successive calls of the allocator\<close>

lemma random_colors_props:
  assumes "random_colors g n st = Some (cs, st1)"
  shows "length cs = n \<and> set cs \<subseteq> set colors \<and> length colors = 6 \<and>
         (\<forall>i. Suc i < length cs \<longrightarrow> cs ! Suc i \<noteq> cs ! i)"
  using assms
proof (induction n arbitrary: st cs)
  case 0
  then show ?case by (simp add: colors_def)
next
  case (Suc n)
  from Suc.prems obtain c sa cs' where c: "random_color g st = Some (c, sa)"
    and r: "random_colors g n sa = Some (cs', st1)" and cs: "cs = c # cs'"
    by (auto split: option.splits)
  note IH = Suc.IH[OF r]
  have adj: "cs' \<noteq> [] \<Longrightarrow> hd cs' \<noteq> c"
  proof -
    assume "cs' \<noteq> []"
    with IH obtain m where n: "n = Suc m" by (cases n) auto
    with r obtain c' sb where c': "random_color g sa = Some (c', sb)" and "hd cs' = c'"
      by (auto split: option.splits)
    with random_color_SomeD(2)[OF c'] random_color_SomeD(3)[OF c] show "hd cs' \<noteq> c"
      by simp
  qed
  have "(c # cs') ! Suc i \<noteq> (c # cs') ! i" if "Suc i < length (c # cs')" for i
  proof (cases i)
    case 0
    with that adj show ?thesis by (cases cs') auto
  next
    case (Suc j)
    with that IH show ?thesis by simp
  qed
  with IH random_color_SomeD(1)[OF c] cs show ?case by simp
qed

section \<open>C5: the colours the allocator returns\<close>

text \<open>
  C5: whatever the state of the allocator and the random source, if \<open>n\<close> successive calls
  of \<open>random_color()\<close> return the colours \<open>cs\<close>, every colour of \<open>cs\<close> is one of the six
  colours of the palette and each colour after the first differs from the one returned
  just before it.
\<close>

theorem c5_palette_no_immediate_repeat:
  assumes "random_colors g n st = Some (cs, st1)"
  shows "length cs = n \<and> set cs \<subseteq> set colors \<and> length colors = 6 \<and>
         (\<forall>i. Suc i < length cs \<longrightarrow> cs ! Suc i \<noteq> cs ! i)"
  using assms by (rule random_colors_props)

theorem c5_palette_no_immediate_repeat_witness:
  "random_colors ex_draws 3 (initial None)
     = Some ([''#5EBD3E'', ''#FFB900'', ''#F78200''],
             (initial None)\<lparr>last_color := Some ''#F78200'', rand_pos := 3\<rparr>)
   \<and> length [''#5EBD3E'', ''#FFB900'', ''#F78200''] = (3::nat)
   \<and> set [''#5EBD3E'', ''#FFB900'', ''#F78200''] \<subseteq> set colors
   \<and> [''#5EBD3E'', ''#FFB900'', ''#F78200''] ! Suc 0 \<noteq> [''#5EBD3E'', ''#FFB900'', ''#F78200''] ! 0
   \<and> [''#5EBD3E'', ''#FFB900'', ''#F78200''] ! Suc 1 \<noteq> [''#5EBD3E'', ''#FFB900'', ''#F78200''] ! 1"
proof -
  have h: "random_colors ex_draws 3 (initial None)
     = Some ([''#5EBD3E'', ''#FFB900'', ''#F78200''],
             (initial None)\<lparr>last_color := Some ''#F78200'', rand_pos := 3\<rparr>)"
    by (simp add: numeral_3_eq_3 random_color_def random_color_loop_first
        random_color_loop_accept ex_choice initial_def)
  from c5_palette_no_immediate_repeat[OF h] h show ?thesis by simp
qed

section \<open>C9: lines that are skipped\<close>

text \<open>
  C9: a line that is blank (empty once stripped) or that, once stripped, matches neither
  the metadata pattern nor the heading pattern raises nothing and leaves the state as it
  is, so the result of the parse (the metadata, the tree, and whether it returns at all)
  is the one of the file without that line.
\<close>

theorem c9_skipped_line_no_effect:
  assumes "strip l = [] \<or> (re_meta (strip l) = None \<and> re_heading (strip l) = None)"
  shows "process_line g u l st = Some (Inr st) \<and>
         org2mind g u last_c (xs @ l # ys) = org2mind g u last_c (xs @ ys)"
proof -
  have p: "process_line g u l st' = Some (Inr st')" for st'
    by (rule process_line_skip[OF assms])
  have "run_lines g u (xs @ l # ys) st' = run_lines g u (xs @ ys) st'" for st'
    by (simp add: run_lines_append p split: option.splits sum.splits)
  then show ?thesis using p by (simp add: org2mind_def split: option.splits)
qed

theorem c9_skipped_line_no_effect_witness:
  "(strip ''not a heading'' = [] \<or>
      (re_meta (strip ''not a heading'') = None \<and> re_heading (strip ''not a heading'') = None))
   \<and> org2mind ex_draws ex_uuids None ([''* A''] @ ''not a heading'' # [''** A1''])
       = org2mind ex_draws ex_uuids None ([''* A''] @ [''** A1''])"
proof -
  have h: "strip ''not a heading'' = [] \<or>
      (re_meta (strip ''not a heading'') = None \<and> re_heading (strip ''not a heading'') = None)"
    by code_simp
  from c9_skipped_line_no_effect[OF h] h show ?thesis by blast
qed

section \<open>C6: the directions of the nodes of level 1\<close>

lemma filter_level_look:
  "map look (filter (\<lambda>n. level n = l) h) = filter (\<lambda>t. fst t = l) (map look h)"
  by (simp add: filter_map o_def look_def)

lemma ex_file_runs: "\<exists>st. org2mind ex_draws ex_uuids None ex_file = Some (Inr st)"
proof -
  have "(case org2mind ex_draws ex_uuids None ex_file of
           Some (Inr st) \<Rightarrow> True | _ \<Rightarrow> False)"
    by code_simp
  then show ?thesis by (auto split: option.splits sum.splits)
qed

lemma ex_file_depths: "heading_depths ex_file = [1, 2, 1]"
  by code_simp

lemma directions_invariant:
  assumes "org2mind g u last_c fd = Some (Inr st)"
  shows "(\<forall>i<length (filter (\<lambda>t. fst t = 1) (map look (heap st))).
            fst (snd (filter (\<lambda>t. fst t = 1) (map look (heap st)) ! i))
              = (if even i then ''right'' else ''left''))
         \<and> direction_v st
              = (if even (length (filter (\<lambda>t. fst t = 1) (map look (heap st)))) then 0 else 1)"
  using assms
proof (induction rule: org2mind_induct)
  case (start st0)
  from start_SomeD[OF this] show ?case by (auto simp: new_Node_def look_def)
next
  case (line xs x s s')
  note wf = wf_org2mind[OF line.hyps(1)]
  note lk = look_process_line[OF line.hyps(2) wf]
  let ?hs = "filter (\<lambda>t. fst t = 1) (map look (heap s))"
  show ?case
  proof (cases "re_heading (strip x)")
    case None
    with lk line.IH show ?thesis by simp
  next
    case (Some r)
    obtain stars t where r: "r = (stars, t)" by (cases r)
    note re = Some[unfolded r]
    show ?thesis
    proof (cases "length stars = 1")
      case True
      with lk re obtain c where
        d: "direction_v s' = 1 - direction_v s"
        and h: "map look (heap s') = map look (heap s)
                  @ [(1, if direction_v s = 0 then ''right'' else ''left'', Some c)]"
        by auto
      have f: "filter (\<lambda>t. fst t = 1) (map look (heap s'))
                 = ?hs @ [(1, if direction_v s = 0 then ''right'' else ''left'', Some c)]"
        by (simp add: h)
      let ?x = "(1::int, if direction_v s = 0 then ''right'' else ''left'', Some c)"
      from line.IH have ih: "\<forall>i<length ?hs. fst (snd (?hs ! i)) = (if even i then ''right'' else ''left'')"
        and dv: "direction_v s = (if even (length ?hs) then 0 else 1)" by blast+
      have new: "fst (snd ?x) = (if even (length ?hs) then ''right'' else ''left'')"
        using dv by simp
      have "fst (snd ((?hs @ [?x]) ! i)) = (if even i then ''right'' else ''left'')"
        if "i < length (?hs @ [?x])" for i
      proof (cases "i < length ?hs")
        case True
        with ih show ?thesis by (simp add: nth_append)
      next
        case False
        with that have "i = length ?hs" by simp
        with new show ?thesis by (simp add: nth_append)
      qed
      moreover have "1 - direction_v s = (if even (length (?hs @ [?x])) then 0 else 1)"
        using dv by simp
      ultimately show ?thesis unfolding f d by blast
    next
      case False
      with lk re have h: "map look (heap s') = map look (heap s)
                          @ [(int (length stars), ''right'', background_color_v s)]"
        and d: "direction_v s' = direction_v s" by auto
      from False have f: "filter (\<lambda>t. fst t = 1) (map look (heap s')) = ?hs"
        by (simp add: h)
      from line.IH show ?thesis unfolding f d .
    qed
  qed
qed

text \<open>
  C6: the nodes of the store are in the order of their heading lines (the levels after
  the root are the depths of the heading lines), and among them the nodes of level 1
  have the directions right, left, right, ... in that order.
\<close>

theorem c6_directions_alternate:
  assumes "org2mind g u last_c fd = Some (Inr st)"
  shows "map level (heap st) = 0 # map int (heading_depths fd) \<and>
         (\<forall>i<length (filter (\<lambda>n. level n = 1) (heap st)).
            direction (filter (\<lambda>n. level n = 1) (heap st) ! i)
              = (if even i then ''right'' else ''left''))"
proof -
  let ?ns = "filter (\<lambda>n. level n = 1) (heap st)"
  have "direction (?ns ! i) = (if even i then ''right'' else ''left'')" if "i < length ?ns" for i
  proof -
    have "direction (?ns ! i) = fst (snd (map look ?ns ! i))"
      using that by (simp add: look_def)
    also have "\<dots> = (if even i then ''right'' else ''left'')"
    proof -
      have eq: "filter (\<lambda>t. fst t = 1) (map look (heap st)) = map look ?ns"
        by (rule filter_level_look[symmetric])
      from directions_invariant[OF assms]
      have "\<forall>i<length (map look ?ns).
              fst (snd (map look ?ns ! i)) = (if even i then ''right'' else ''left'')"
        unfolding eq by (rule conjunct1)
      with that show ?thesis by simp
    qed
    finally show ?thesis .
  qed
  with levels_org2mind[OF assms] show ?thesis by blast
qed

theorem c6_directions_alternate_witness:
  "\<exists>st. org2mind ex_draws ex_uuids None ex_file = Some (Inr st)
        \<and> map level (heap st) = [0, 1, 2, 1]
        \<and> map direction (filter (\<lambda>n. level n = 1) (heap st)) = [''right'', ''left'']"
proof -
  from ex_file_runs obtain st where h: "org2mind ex_draws ex_uuids None ex_file = Some (Inr st)"
    by blast
  note c = c6_directions_alternate[OF h]
  from c have lv: "map level (heap st) = [0, 1, 2, 1]" by (simp add: ex_file_depths)
  have "length (filter (\<lambda>n. level n = 1) (heap st))
          = length (filter (\<lambda>l. l = 1) (map level (heap st)))"
    by (simp add: filter_map o_def)
  then have len: "length (filter (\<lambda>n. level n = 1) (heap st)) = 2" by (simp add: lv)
  from c len have "direction (filter (\<lambda>n. level n = 1) (heap st) ! 0) = ''right''"
    and "direction (filter (\<lambda>n. level n = 1) (heap st) ! 1) = ''left''" by auto
  with len have "map direction (filter (\<lambda>n. level n = 1) (heap st)) = [''right'', ''left'']"
    by (simp add: list_eq_iff_nth_eq less_Suc_eq numeral_2_eq_2)
  with h lv show ?thesis by (intro exI[of _ st] conjI)
qed

section \<open>The colours along the file\<close>

lemma random_colors_snoc:
  "random_colors g (Suc n) st =
     (case random_colors g n st of
        None \<Rightarrow> None
      | Some (cs, s1) \<Rightarrow>
          (case random_color g s1 of
             None \<Rightarrow> None
           | Some (c, s2) \<Rightarrow> Some (cs @ [c], s2)))"
proof (induction n arbitrary: st)
  case 0
  show ?case by (simp split: option.splits)
next
  case (Suc n)
  show ?case
  proof (cases "random_color g st")
    case None
    then show ?thesis by simp
  next
    case (Some p)
    obtain c s1 where p: "p = (c, s1)" by (cases p)
    have L: "random_colors g (Suc (Suc n)) st
               = (case random_colors g (Suc n) s1 of
                    None \<Rightarrow> None | Some (cs, s2) \<Rightarrow> Some (c # cs, s2))"
      by (subst random_colors.simps(2)) (simp only: Some p option.case prod.case)
    have R: "random_colors g (Suc n) st
               = (case random_colors g n s1 of
                    None \<Rightarrow> None | Some (cs, s2) \<Rightarrow> Some (c # cs, s2))"
      by (simp add: Some p)
    show ?thesis
      unfolding L R Suc.IH[of s1] by (simp split: option.splits)
  qed
qed

lemma random_color_loop_color:
  assumes "random_color_loop g (last_color sa) (rand_pos sa) = Some (c, j)"
  shows "random_color g sa = Some (c, sa\<lparr>last_color := Some c, rand_pos := j\<rparr>)"
  using assms by (simp add: random_color_def)

lemma branch_head_le: "branch_head ls k = Some b \<Longrightarrow> b \<le> k"
  by (induction k) (auto split: if_splits)

lemma branch_head_append: "k < length ls \<Longrightarrow> branch_head (ls @ ms) k = branch_head ls k"
  by (induction k) (auto simp: nth_append)

lemma branch_head_last:
  "ls \<noteq> [] \<Longrightarrow> branch_head (ls @ [l]) (length ls)
     = (if l = 1 then Some (length ls) else branch_head ls (length ls - 1))"
  by (cases "length ls") (auto simp: nth_append branch_head_append)

text \<open>
  The colours of the root and of the nodes of level 1, in order, are the colours that
  successive calls of the allocator return, and the allocator is left as these calls
  leave it.
\<close>

lemma drawn_invariant:
  assumes "org2mind g u last_c fd = Some (Inr st)"
  shows "\<exists>cs sa. random_colors g (Suc (length (filter (\<lambda>t. fst t = 1) (map look (heap st)))))
                    (initial last_c) = Some (cs, sa)
           \<and> last_color sa = last_color st \<and> rand_pos sa = rand_pos st
           \<and> map (\<lambda>t. snd (snd t)) (map look (heap st) ! 0
                 # filter (\<lambda>t. fst t = 1) (map look (heap st))) = map Some cs"
  using assms
proof (induction rule: org2mind_induct)
  case (start st0)
  from start_SomeD[OF this] obtain c j where l: "random_color_loop g last_c 0 = Some (c, j)"
    and st0: "st0 = \<lparr>meta = [''version'' \<mapsto> PyFloat 2 (- 1)], background_color_v = None,
                  direction_v = 0, level_v = - 1, stack = [0],
                  heap = [new_Node ''root'' 0 (Some c) (Some foreground_color_v) (u 0)],
                  last_color = Some c, rand_pos = j, uuid_pos = Suc 0\<rparr>" by blast
  have "random_color g (initial last_c)
          = Some (c, (initial last_c)\<lparr>last_color := Some c, rand_pos := j\<rparr>)"
    by (rule random_color_loop_color) (simp add: initial_def l)
  then show ?case by (simp add: st0 look_def new_Node_def)
next
  case (line xs x s s')
  note wf = wf_org2mind[OF line.hyps(1)]
  note lk = look_process_line[OF line.hyps(2) wf]
  let ?L = "map look (heap s)"
  let ?hs = "filter (\<lambda>t. fst t = 1) ?L"
  from wf have ne: "?L \<noteq> []" by (simp add: wf_def)
  from line.IH obtain cs sa where
    rc: "random_colors g (Suc (length ?hs)) (initial last_c) = Some (cs, sa)"
    and sa: "last_color sa = last_color s" "rand_pos sa = rand_pos s"
    and bg: "map (\<lambda>t. snd (snd t)) (?L ! 0 # ?hs) = map Some cs" by blast
  show ?case
  proof (cases "re_heading (strip x)")
    case None
    with lk rc sa bg show ?thesis by auto
  next
    case (Some r)
    obtain stars t where r: "r = (stars, t)" by (cases r)
    note re = Some[unfolded r]
    show ?thesis
    proof (cases "length stars = 1")
      case True
      with lk re obtain c j where
        l: "random_color_loop g (last_color s) (rand_pos s) = Some (c, j)"
        and s': "last_color s' = Some c" "rand_pos s' = j"
        and h: "map look (heap s') = ?L
                  @ [(1, if direction_v s = 0 then ''right'' else ''left'', Some c)]"
        by auto
      have f: "filter (\<lambda>t. fst t = 1) (map look (heap s'))
                 = ?hs @ [(1, if direction_v s = 0 then ''right'' else ''left'', Some c)]"
        by (simp add: h)
      have z: "map look (heap s') ! 0 = ?L ! 0" using ne by (simp add: h nth_append)
      have "random_color g sa = Some (c, sa\<lparr>last_color := Some c, rand_pos := j\<rparr>)"
        by (rule random_color_loop_color) (simp add: sa l)
      with rc have "random_colors g (Suc (Suc (length ?hs))) (initial last_c)
                      = Some (cs @ [c], sa\<lparr>last_color := Some c, rand_pos := j\<rparr>)"
        by (subst random_colors_snoc) simp
      with bg s' show ?thesis unfolding f z by simp
    next
      case False
      with lk re have h: "map look (heap s') = ?L
                          @ [(int (length stars), ''right'', background_color_v s)]"
        and k: "last_color s' = last_color s" "rand_pos s' = rand_pos s" by auto
      from False have f: "filter (\<lambda>t. fst t = 1) (map look (heap s')) = ?hs"
        by (simp add: h)
      have z: "map look (heap s') ! 0 = ?L ! 0" using ne by (simp add: h nth_append)
      from rc sa bg show ?thesis unfolding f z k by blast
    qed
  qed
qed

lemma pick_extend:
  fixes h h' :: "Node list"
  assumes l: "map level h' = map level h @ [D]"
    and b: "map background_color h' = map background_color h @ [bg]"
    and k: "k < length h"
  shows "(case branch_head (map level h') k of None \<Rightarrow> None
          | Some b \<Rightarrow> background_color (h' ! b))
       = (case branch_head (map level h) k of None \<Rightarrow> None
          | Some b \<Rightarrow> background_color (h ! b))"
proof -
  have bh: "branch_head (map level h') k = branch_head (map level h) k"
    unfolding l using k by (simp add: branch_head_append)
  show ?thesis
  proof (cases "branch_head (map level h) k")
    case None
    then show ?thesis by (simp add: bh)
  next
    case (Some a)
    from branch_head_le[OF Some] k have "a < length h" by simp
    from map_snoc_nth(3)[OF b this] Some show ?thesis by (simp add: bh)
  qed
qed

lemma inherit_invariant:
  assumes "org2mind g u last_c fd = Some (Inr st)"
  shows "(\<forall>k. 0 < k \<and> k < length (heap st) \<longrightarrow>
            background_color (heap st ! k)
              = (case branch_head (map level (heap st)) k of None \<Rightarrow> None
                 | Some b \<Rightarrow> background_color (heap st ! b)))
         \<and> background_color_v st
              = (case branch_head (map level (heap st)) (length (heap st) - 1) of None \<Rightarrow> None
                 | Some b \<Rightarrow> background_color (heap st ! b))"
  using assms
proof (induction rule: org2mind_induct)
  case (start st0)
  from start_SomeD[OF this] show ?case by (auto simp: new_Node_def)
next
  case (line xs x s s')
  note wf = wf_org2mind[OF line.hyps(1)]
  let ?n = "length (heap s)"
  from wf have n0: "0 < ?n" by (simp add: wf_def)
  from line.IH have ih1: "\<And>k. 0 < k \<Longrightarrow> k < ?n \<Longrightarrow>
            background_color (heap s ! k)
              = (case branch_head (map level (heap s)) k of None \<Rightarrow> None
                 | Some b \<Rightarrow> background_color (heap s ! b))"
    and ih2: "background_color_v s
              = (case branch_head (map level (heap s)) (?n - 1) of None \<Rightarrow> None
                 | Some b \<Rightarrow> background_color (heap s ! b))" by blast+
  show ?case
  proof (cases "re_heading (strip x)")
    case None
    from other_line_step[OF line.hyps(2) None] obtain m tp where s': "s' = retitled m tp s"
      by blast
    from line.IH show ?thesis unfolding s' by (simp cong: option.case_cong)
  next
    case (Some r)
    obtain stars t where r: "r = (stars, t)" by (cases r)
    note re = Some[unfolded r]
    note hs = heading_line_step[OF line.hyps(2) re wf]
    let ?D = "int (length stars)"
    obtain bg where bm: "map background_color (heap s') = map background_color (heap s) @ [bg]"
      and bv: "background_color_v s' = (if ?D = 1 then bg else background_color_v s)"
      and bn: "?D \<noteq> 1 \<Longrightarrow> bg = background_color_v s"
      using hs(10) hs(11) by (cases "?D = 1") auto
    note lm = hs(2)
    have len: "length (heap s') = Suc ?n" by (rule hs(1))
    have last: "branch_head (map level (heap s')) ?n
                  = (if ?D = 1 then Some ?n else branch_head (map level (heap s)) (?n - 1))"
      unfolding lm using branch_head_last[of "map level (heap s)" ?D] n0 by simp
    have old: "background_color (heap s' ! k) = background_color (heap s ! k)" if "k < ?n" for k
      by (rule map_snoc_nth(3)[OF bm that])
    have new: "background_color (heap s' ! ?n) = bg" by (rule map_snoc_nth(2)[OF bm])
    have atn: "(case branch_head (map level (heap s')) ?n of None \<Rightarrow> None
                | Some b \<Rightarrow> background_color (heap s' ! b)) = bg"
    proof (cases "?D = 1")
      case True
      then show ?thesis by (simp add: last new)
    next
      case False
      show ?thesis
      proof (cases "branch_head (map level (heap s)) (?n - 1)")
        case None
        with False bn ih2 show ?thesis by (simp add: last)
      next
        case (Some a)
        from branch_head_le[OF Some] n0 have "a < ?n" by (cases "heap s") auto
        from old[OF this] Some False bn ih2 show ?thesis by (simp add: last)
      qed
    qed
    have "background_color (heap s' ! k)
              = (case branch_head (map level (heap s')) k of None \<Rightarrow> None
                 | Some b \<Rightarrow> background_color (heap s' ! b))"
      if "0 < k" "k < length (heap s')" for k
    proof (cases "k < ?n")
      case True
      from pick_extend[OF lm bm True] old[OF True] ih1[OF that(1) True] show ?thesis by simp
    next
      case False
      with that len have "k = ?n" by simp
      with atn new show ?thesis by simp
    qed
    moreover have "background_color_v s'
              = (case branch_head (map level (heap s')) (length (heap s') - 1) of None \<Rightarrow> None
                 | Some b \<Rightarrow> background_color (heap s' ! b))"
    proof (cases "?D = 1")
      case True
      with bv atn show ?thesis by (simp add: len)
    next
      case False
      with bv bn atn show ?thesis by (simp add: len)
    qed
    ultimately show ?thesis by blast
  qed
qed

lemma drawn_nodes:
  assumes "org2mind g u last_c fd = Some (Inr st)"
  shows "\<exists>cs sa. random_colors g (Suc (length (filter (\<lambda>n. level n = 1) (heap st))))
                    (initial last_c) = Some (cs, sa)
           \<and> map background_color (heap st ! 0 # filter (\<lambda>n. level n = 1) (heap st))
               = map Some cs"
proof -
  let ?ns = "filter (\<lambda>n. level n = 1) (heap st)"
  have eq: "filter (\<lambda>t. fst t = 1) (map look (heap st)) = map look ?ns"
    by (rule filter_level_look[symmetric])
  from wf_org2mind[OF assms] have ne: "heap st \<noteq> []" by (simp add: wf_def)
  then have z: "map look (heap st) ! 0 = look (heap st ! 0)" by simp
  have m: "map (\<lambda>t. snd (snd t)) (look (heap st ! 0) # map look ?ns)
             = map background_color (heap st ! 0 # ?ns)"
    by (simp add: look_def)
  from drawn_invariant[OF assms] show ?thesis
    unfolding eq z m by auto
qed

section \<open>C7: the background colours of the branches\<close>

lemma ex_deep_file_runs:
  "\<exists>st. org2mind ex_draws ex_uuids None ex_deep_file = Some (Inr st)"
proof -
  have "(case org2mind ex_draws ex_uuids None ex_deep_file of
           Some (Inr st) \<Rightarrow> True | _ \<Rightarrow> False)"
    by code_simp
  then show ?thesis by (auto split: option.splits sum.splits)
qed

lemma ex_deep_file_depths: "heading_depths ex_deep_file = [3, 1, 2]"
  by code_simp

text \<open>
  C7: the nodes are stored in the order of their heading lines. The background colours
  of the root and of the nodes of level 1, in this order, are the colours returned by
  successive calls of the allocator, one call for each of them. Every other node has the
  background colour of the nearest node of level 1 created before it, and \<open>None\<close> when no
  node of level 1 was created before it.
\<close>

theorem c7_branch_backgrounds:
  assumes "org2mind g u last_c fd = Some (Inr st)"
  shows "map level (heap st) = 0 # map int (heading_depths fd)
       \<and> (\<exists>cs sa. random_colors g (Suc (length (filter (\<lambda>n. level n = 1) (heap st))))
                    (initial last_c) = Some (cs, sa)
           \<and> map background_color (heap st ! 0 # filter (\<lambda>n. level n = 1) (heap st))
               = map Some cs)
       \<and> (\<forall>k. 0 < k \<and> k < length (heap st) \<longrightarrow>
            background_color (heap st ! k)
              = (case branch_head (map level (heap st)) k of None \<Rightarrow> None
                 | Some b \<Rightarrow> background_color (heap st ! b)))"
  using levels_org2mind[OF assms] drawn_nodes[OF assms] inherit_invariant[OF assms]
  by blast

theorem c7_branch_backgrounds_witness:
  "\<exists>st. org2mind ex_draws ex_uuids None ex_deep_file = Some (Inr st)
        \<and> map level (heap st) = [0, 3, 1, 2]
        \<and> background_color (heap st ! 1) = None
        \<and> background_color (heap st ! 3) = background_color (heap st ! 2)
        \<and> (\<exists>cs sa. random_colors ex_draws 2 (initial None) = Some (cs, sa)
              \<and> map background_color (heap st ! 0 # filter (\<lambda>n. level n = 1) (heap st))
                  = map Some cs)"
proof -
  from ex_deep_file_runs obtain st where
    h: "org2mind ex_draws ex_uuids None ex_deep_file = Some (Inr st)" by blast
  note c = c7_branch_backgrounds[OF h]
  from c have lv: "map level (heap st) = [0, 3, 1, 2]" by (simp add: ex_deep_file_depths)
  then have "length (map level (heap st)) = 4" by simp
  then have len: "length (heap st) = 4" by simp
  have "length (filter (\<lambda>n. level n = 1) (heap st))
          = length (filter (\<lambda>l. l = 1) (map level (heap st)))"
    by (simp add: filter_map o_def)
  then have n1: "Suc (length (filter (\<lambda>n. level n = 1) (heap st))) = 2" by (simp add: lv)
  from c have inh: "\<And>k. 0 < k \<Longrightarrow> k < length (heap st) \<Longrightarrow>
            background_color (heap st ! k)
              = (case branch_head (map level (heap st)) k of None \<Rightarrow> None
                 | Some b \<Rightarrow> background_color (heap st ! b))" by blast
  have b1: "branch_head [0, 3, 1, 2] 1 = None" by (simp add: eval_nat_numeral)
  have b3: "branch_head [0, 3, 1, 2] 3 = Some 2" by (simp add: eval_nat_numeral)
  from inh[of 1] have k1: "background_color (heap st ! 1) = None"
    by (simp add: len lv b1)
  from inh[of 3] have k3: "background_color (heap st ! 3) = background_color (heap st ! 2)"
    by (simp add: len lv b3)
  from c have dr: "\<exists>cs sa. random_colors ex_draws 2 (initial None) = Some (cs, sa)
              \<and> map background_color (heap st ! 0 # filter (\<lambda>n. level n = 1) (heap st))
                  = map Some cs"
    unfolding n1 by blast
  from h lv k1 k3 dr show ?thesis by (intro exI[of _ st] conjI)
qed

section \<open>C10: the colour of the first branch and the colour of the root\<close>

text \<open>
  C10: when the file has a heading line of depth 1, the first node of level 1 and the
  root both have a background colour and the two colours differ: the colour of the root
  is the first colour the allocator returns and the colour of the first node of level 1
  is the next one, drawn with the colour of the root as last emitted colour.
\<close>

theorem c10_first_branch_differs_from_root:
  assumes run: "org2mind g u last_c fd = Some (Inr st)"
    and one: "1 \<in> set (heading_depths fd)"
  shows "filter (\<lambda>n. level n = 1) (heap st) \<noteq> []
       \<and> (\<exists>c c'. background_color (heap st ! root) = Some c
             \<and> background_color (hd (filter (\<lambda>n. level n = 1) (heap st))) = Some c'
             \<and> c' \<noteq> c)"
proof -
  let ?ns = "filter (\<lambda>n. level n = 1) (heap st)"
  from one have "(1::int) \<in> set (map level (heap st))"
    unfolding levels_org2mind[OF run] by force
  then obtain n where "n \<in> set (heap st)" "level n = 1" by auto
  then have ne: "?ns \<noteq> []" by (auto simp: filter_empty_conv)
  from drawn_nodes[OF run] obtain cs sa where
    rc: "random_colors g (Suc (length ?ns)) (initial last_c) = Some (cs, sa)"
    and bg: "map background_color (heap st ! 0 # ?ns) = map Some cs" by blast
  note p = random_colors_props[OF rc]
  from ne obtain n1 rest where ns: "?ns = n1 # rest" by (cases ?ns) auto
  from p ns obtain c c' cs' where cs: "cs = c # c' # cs'"
    by (cases cs; cases "tl cs") auto
  from p cs have d: "c' \<noteq> c" by auto
  from bg show ?thesis
    by (auto simp add: ns cs d root_def simp del: filter.simps)
qed

theorem c10_first_branch_differs_from_root_witness:
  "\<exists>st. org2mind ex_draws ex_uuids None ex_file = Some (Inr st)
        \<and> 1 \<in> set (heading_depths ex_file)
        \<and> filter (\<lambda>n. level n = 1) (heap st) \<noteq> []
        \<and> (\<exists>c c'. background_color (heap st ! root) = Some c
             \<and> background_color (hd (filter (\<lambda>n. level n = 1) (heap st))) = Some c'
             \<and> c' \<noteq> c)"
proof -
  from ex_file_runs obtain st where
    h: "org2mind ex_draws ex_uuids None ex_file = Some (Inr st)" by blast
  have one: "1 \<in> set (heading_depths ex_file)" by (simp add: ex_file_depths)
  from c10_first_branch_differs_from_root[OF h one] h one show ?thesis
    by (intro exI[of _ st] conjI) blast+
qed

section \<open>C3: the version entry of the metadata\<close>

lemma process_line_meta:
  assumes pl: "process_line g u x s = Some (Inr s')" and wf: "wf s"
  shows "meta s' = (case re_meta (strip x) of None \<Rightarrow> meta s
                    | Some (k, v) \<Rightarrow> (meta s)(k \<mapsto> PyStr v))"
proof -
  let ?m = "case re_meta (strip x) of None \<Rightarrow> meta s | Some (k, v) \<Rightarrow> (meta s)(k \<mapsto> PyStr v)"
  obtain tp where pm: "parse_meta (strip x) s = retitled ?m tp s"
    using parse_meta_retitled by blast
  have ph: "parse_heading g u (strip x) (retitled ?m tp s) = Some (Inr s')"
    using pl by (simp add: process_line_parse pm)
  show ?thesis
  proof (cases "re_heading (strip x)")
    case None
    with ph show ?thesis by (auto simp: parse_heading_def)
  next
    case (Some r)
    obtain stars t where r: "r = (stars, t)" by (cases r)
    have wf1: "wf (retitled ?m tp s)" using wf by simp
    from parse_heading_step[OF ph Some[unfolded r] wf1] show ?thesis by auto
  qed
qed

lemma meta_keys_snoc:
  "meta_keys (xs @ [x]) =
     meta_keys xs @ (case re_meta (strip x) of None \<Rightarrow> [] | Some (k, v) \<Rightarrow> [k])"
  by (simp add: meta_keys_def)

lemma version_invariant:
  assumes "org2mind g u last_c fd = Some (Inr st)"
  shows "meta st ''version'' \<noteq> None \<and>
         (''version'' \<notin> set (meta_keys fd) \<longrightarrow> meta st ''version'' = Some (PyFloat 2 (- 1)))"
  using assms
proof (induction rule: org2mind_induct)
  case (start st0)
  from start_SomeD[OF this] show ?case by auto
next
  case (line xs x s s')
  note m = process_line_meta[OF line.hyps(2) wf_org2mind[OF line.hyps(1)]]
  show ?case
  proof (cases "re_meta (strip x)")
    case None
    with m line.IH show ?thesis by (simp add: meta_keys_snoc)
  next
    case (Some r)
    obtain k v where r: "r = (k, v)" by (cases r)
    from m line.IH show ?thesis by (auto simp: Some r meta_keys_snoc)
  qed
qed

text \<open>
  C3 as the claim states it fails: without any metadata line the entry \<open>version\<close> holds
  the float \<open>0.2\<close> of line 124, not the string \<open>"0.2"\<close>.
\<close>

theorem c3_version_is_not_a_string:
  "result_meta (org2mind ex_draws ex_uuids None []) ''version'' = Some (PyFloat 2 (- 1))
   \<and> result_meta (org2mind ex_draws ex_uuids None []) ''version'' \<noteq> Some (PyStr ''0.2'')"
proof -
  have "result_meta (org2mind ex_draws ex_uuids None []) ''version'' = Some (PyFloat 2 (- 1))"
    by (simp add: org2mind_def start_def random_color_def initial_def
        random_color_loop_first alloc_Node_def result_meta_def)
  then show ?thesis by simp
qed

text \<open>
  C3, amended: every parse returns a metadata mapping with an entry \<open>version\<close>, also when
  the file declares no metadata; unless a metadata line of the file has the key
  \<open>version\<close>, the entry is the float \<open>0.2\<close>.
\<close>

theorem c3_version_default:
  assumes "org2mind g u last_c fd = Some (Inr st)"
  shows "''version'' \<in> dom (meta st) \<and>
         (''version'' \<notin> set (meta_keys fd) \<longrightarrow> meta st ''version'' = Some (PyFloat 2 (- 1)))"
  using version_invariant[OF assms] by (simp add: dom_def)

lemma ex_file_meta_keys: "meta_keys ex_file = [''TITLE'']"
  by code_simp

theorem c3_version_default_witness:
  "\<exists>st. org2mind ex_draws ex_uuids None ex_file = Some (Inr st)
        \<and> ''version'' \<in> dom (meta st)
        \<and> ''version'' \<notin> set (meta_keys ex_file)
        \<and> meta st ''version'' = Some (PyFloat 2 (- 1))"
proof -
  from ex_file_runs obtain st where
    h: "org2mind ex_draws ex_uuids None ex_file = Some (Inr st)" by blast
  have k: "''version'' \<notin> set (meta_keys ex_file)" by (simp add: ex_file_meta_keys)
  from c3_version_default[OF h] k h show ?thesis
    by (intro exI[of _ st] conjI) blast+
qed

section \<open>C8: termination\<close>

lemma parse_heading_outcome:
  assumes re: "re_heading line = Some (stars, t)" and wf: "wf s"
  shows "length stars = 1 \<and> random_color_loop g (last_color s) (rand_pos s) = None
           \<Longrightarrow> parse_heading g u line s = None"
    and "\<not> (length stars = 1 \<and> random_color_loop g (last_color s) (rand_pos s) = None)
           \<Longrightarrow> \<exists>s'. parse_heading g u line s = Some (Inr s')"
proof -
  let ?D = "int (length stars)"
  have D1: "1 \<le> ?D" using re_heading_depth[OF re] by simp
  have dir: "direction_v s = 0 \<or> direction_v s = 1" using wf by (simp add: wf_def)
  define n0 where "n0 = new_Node t ?D (background_color_v s) (Some foreground_color_v) (u (uuid_pos s))"
  define s1 where "s1 = s\<lparr>heap := heap s @ [n0], uuid_pos := Suc (uuid_pos s)\<rparr>"
  have alloc: "alloc_Node u t ?D (background_color_v s) (Some foreground_color_v) s
                 = (length (heap s), s1)"
    by (simp add: alloc_Node_def s1_def n0_def)
  have ph: "parse_heading g u line s =
              (case (if ?D = 1 then first_level_node g (length (heap s)) s1 else Some (Inr s1)) of
                 None \<Rightarrow> None
               | Some (Inl e) \<Rightarrow> Some (Inl e)
               | Some (Inr st2) \<Rightarrow> Some (attach (length (heap s)) ?D st2))"
    by (simp add: parse_heading_def re alloc)
  have fl: "first_level_node g (length (heap s)) s1 =
              (case random_color_loop g (last_color s) (rand_pos s) of
                 None \<Rightarrow> None
               | Some (c, j) \<Rightarrow> Some (Inr (s1\<lparr>heap := heap s @
                     [n0\<lparr>direction := (if direction_v s = 0 then ''right'' else ''left''),
                         background_color := Some c\<rparr>],
                     direction_v := 1 - direction_v s, last_color := Some c, rand_pos := j,
                     background_color_v := Some c\<rparr>)))"
    using dir
    by (auto simp: first_level_node_def py_index_directions Let_def update_node_def
        random_color_def s1_def split: option.splits)
  have att: "\<exists>s'. attach (length (heap s)) ?D r = Inr s'"
    if "heap r = heap s @ [nd]" "stack r = stack s" "level_v r = level_v s" for r nd
    using attach_step[OF wf D1 that] by blast
  show "length stars = 1 \<and> random_color_loop g (last_color s) (rand_pos s) = None
           \<Longrightarrow> parse_heading g u line s = None"
    by (simp add: ph fl)
  assume a: "\<not> (length stars = 1 \<and> random_color_loop g (last_color s) (rand_pos s) = None)"
  show "\<exists>s'. parse_heading g u line s = Some (Inr s')"
  proof (cases "?D = 1")
    case False
    from att[of s1 n0] have "\<exists>s'. attach (length (heap s)) ?D s1 = Inr s'"
      by (simp add: s1_def)
    with False show ?thesis by (simp add: ph)
  next
    case True
    with a obtain c j where l: "random_color_loop g (last_color s) (rand_pos s) = Some (c, j)"
      by auto
    define r where "r = s1\<lparr>heap := heap s @
                     [n0\<lparr>direction := (if direction_v s = 0 then ''right'' else ''left''),
                         background_color := Some c\<rparr>],
                     direction_v := 1 - direction_v s, last_color := Some c, rand_pos := j,
                     background_color_v := Some c\<rparr>"
    have f: "first_level_node g (length (heap s)) s1 = Some (Inr r)"
      by (simp add: fl l r_def)
    from att[of r] have "\<exists>s'. attach (length (heap s)) ?D r = Inr s'"
      by (simp add: r_def s1_def)
    with True f show ?thesis by (simp add: ph)
  qed
qed

lemma process_line_outcome:
  assumes wf: "wf s"
  shows "(\<exists>t. re_heading (strip x) = Some (''*'', t))
           \<and> random_color_loop g (last_color s) (rand_pos s) = None
         \<Longrightarrow> process_line g u x s = None"
    and "\<not> ((\<exists>stars t. re_heading (strip x) = Some (stars, t) \<and> length stars = 1)
           \<and> random_color_loop g (last_color s) (rand_pos s) = None)
         \<Longrightarrow> \<exists>s'. process_line g u x s = Some (Inr s')"
proof -
  obtain m tp where pm: "parse_meta (strip x) s = retitled m tp s"
    using parse_meta_retitled by blast
  have wf1: "wf (retitled m tp s)" using wf by simp
  show "(\<exists>t. re_heading (strip x) = Some (''*'', t))
           \<and> random_color_loop g (last_color s) (rand_pos s) = None
         \<Longrightarrow> process_line g u x s = None"
    using parse_heading_outcome(1)[OF _ wf1, of "strip x" "''*''" _ g u]
    by (auto simp: process_line_parse pm)
  assume a: "\<not> ((\<exists>stars t. re_heading (strip x) = Some (stars, t) \<and> length stars = 1)
           \<and> random_color_loop g (last_color s) (rand_pos s) = None)"
  show "\<exists>s'. process_line g u x s = Some (Inr s')"
  proof (cases "re_heading (strip x)")
    case None
    then show ?thesis by (simp add: process_line_parse pm parse_heading_def)
  next
    case (Some r)
    obtain stars t where r: "r = (stars, t)" by (cases r)
    from a Some r have "\<not> (length stars = 1
        \<and> random_color_loop g (last_color (retitled m tp s)) (rand_pos (retitled m tp s)) = None)"
      by simp
    from parse_heading_outcome(2)[OF Some[unfolded r] wf1 this] show ?thesis
      by (simp add: process_line_parse pm)
  qed
qed





lemma stuck_loop: "random_color_loop stuck_draws (Some ''#5EBD3E'') i = None"
proof (cases "random_color_loop stuck_draws (Some ''#5EBD3E'') i")
  case None
  then show ?thesis .
next
  case (Some r)
  from random_color_loop_stuck[OF Some] show ?thesis
    by (simp add: random_choice_def stuck_draws_def colors_def)
qed

text \<open>
  In the model the hypothesis of fairness cannot be dropped: the retry loop has no bound
  of its own, and with a source that yields index 0 forever the root takes the first
  colour and the call for the heading \<open>* A\<close> does not return. Such a source is not one
  that \<open>random.choice\<close> draws from a seeded generator.
\<close>

lemma unfair_source_never_returns:
  "org2mind stuck_draws ex_uuids None [''* A''] = None"
proof -
  obtain st0 where st: "start stuck_draws ex_uuids None = Some st0"
    and lc: "last_color st0 = Some ''#5EBD3E''"
    by (simp add: start_def random_color_def initial_def random_color_loop_first
        alloc_Node_def random_choice_def stuck_draws_def colors_def)
  have "re_heading (strip ''* A'') = Some (''*'', ''A'')" by code_simp
  then have re: "\<exists>t. re_heading (strip ''* A'') = Some (''*'', t)" by blast
  have "process_line stuck_draws ex_uuids ''* A'' st0 = None"
    by (rule process_line_outcome(1)[OF wf_start[OF st]]) (simp add: re lc stuck_loop)
  then show ?thesis by (simp add: org2mind_def st)
qed

lemma stuck_draws_unfair: "\<not> fair stuck_draws"
  unfolding fair_def
  by (auto simp: random_choice_def stuck_draws_def intro!: exI[of _ "colors ! 0"])



section \<open>C4: the parent of a heading\<close>

lemma parent_of_snoc:
  "parent_of (ds @ [d]) D = (if d < D then Suc (length ds) else parent_of ds D)"
proof -
  have "filter (\<lambda>i. (ds @ [d]) ! i < D) (rev [0..<length ds])
          = filter (\<lambda>i. ds ! i < D) (rev [0..<length ds])"
    by (rule filter_cong) (auto simp: nth_append)
  then show ?thesis by (simp add: parent_of_def)
qed

lemma parent_of_le: "parent_of ds D \<le> length ds"
proof (induction ds rule: rev_induct)
  case Nil
  show ?case by (simp add: parent_of_def root_def)
next
  case (snoc d ds)
  then show ?case by (simp add: parent_of_snoc)
qed

lemma parent_at_less: "0 < k \<Longrightarrow> parent_at ds k < k"
proof -
  assume "0 < k"
  have "parent_at ds k \<le> length (take (k - 1) ds)"
    unfolding parent_at_def by (rule parent_of_le)
  also have "\<dots> \<le> k - 1" by simp
  finally show ?thesis using \<open>0 < k\<close> by simp
qed

lemma parent_at_snoc:
  assumes "0 < k" "k \<le> length ds"
  shows "parent_at (ds @ [d]) k = parent_at ds k"
proof -
  from assms have "k - 1 < length ds" by simp
  then show ?thesis by (simp add: parent_at_def nth_append)
qed

lemma parent_at_last: "parent_at (ds @ [d]) (Suc (length ds)) = parent_of ds d"
  by (simp add: parent_at_def)

lemma heap_length:
  assumes "org2mind g u last_c fd = Some (Inr st)"
  shows "length (heap st) = Suc (length (heading_depths fd))"
proof -
  from levels_org2mind[OF assms]
  have "length (map level (heap st)) = length (0 # map int (heading_depths fd))" by simp
  then show ?thesis by simp
qed

text \<open>
  The top of the stack once the entries of a level not below \<open>D\<close> are removed is the
  node of the nearest heading of a depth below \<open>D\<close>.
\<close>

lemma stack_invariant:
  assumes "org2mind g u last_c fd = Some (Inr st)"
  shows "\<forall>D\<ge>1. last (filter (\<lambda>a. level (heap st ! a) < int D) (stack st))
                  = parent_of (heading_depths fd) D"
  using assms
proof (induction rule: org2mind_induct)
  case (start st0)
  from start_SomeD[OF this] show ?case
    by (auto simp: new_Node_def heading_depths_def parent_of_def root_def)
next
  case (line xs x s s')
  note wf = wf_org2mind[OF line.hyps(1)]
  show ?case
  proof (cases "re_heading (strip x)")
    case None
    from other_line_step[OF line.hyps(2) None] obtain m tp where s': "s' = retitled m tp s"
      by blast
    from line.IH show ?thesis unfolding s' by (simp add: heading_depths_snoc None)
  next
    case (Some r)
    obtain stars t where r: "r = (stars, t)" by (cases r)
    note re = Some[unfolded r]
    note hs = heading_line_step[OF line.hyps(2) re wf]
    let ?d = "length stars"
    let ?k = "length (heap s)"
    let ?filt = "filter (\<lambda>a. level (heap s ! a) < int ?d) (stack s)"
    note lv = map_snoc_nth[OF hs(2)]
    have in_heap: "\<forall>a\<in>set (stack s). a < ?k" using wf by (simp add: wf_def)
    have kl: "?k = Suc (length (heading_depths xs))" by (rule heap_length[OF line.hyps(1)])
    show ?thesis
    proof (intro allI impI)
      fix D :: nat assume D: "1 \<le> D"
      have old: "filter (\<lambda>a. level (heap s' ! a) < int D) ?filt
                   = filter (\<lambda>a. level (heap s ! a) < int D) ?filt"
        by (rule filter_cong) (use in_heap lv(3) in auto)
      have new: "filter (\<lambda>a. level (heap s' ! a) < int D) [?k] = (if ?d < D then [?k] else [])"
        using lv(2) by simp
      have f: "filter (\<lambda>a. level (heap s' ! a) < int D) (stack s')
                 = filter (\<lambda>a. level (heap s ! a) < int D) ?filt @ (if ?d < D then [?k] else [])"
        by (simp only: hs(7) filter_append old new)
      show "last (filter (\<lambda>a. level (heap s' ! a) < int D) (stack s'))
              = parent_of (heading_depths (xs @ [x])) D"
      proof (cases "?d < D")
        case True
        then show ?thesis by (simp add: f heading_depths_snoc re parent_of_snoc kl)
      next
        case False
        then have "filter (\<lambda>a. level (heap s ! a) < int D) ?filt
                     = filter (\<lambda>a. level (heap s ! a) < int D) (stack s)"
          by (auto simp: filter_filter intro!: filter_cong)
        with False line.IH D show ?thesis
          by (simp add: f heading_depths_snoc re parent_of_snoc)
      qed
    qed
  qed
qed

lemma children_invariant:
  assumes "org2mind g u last_c fd = Some (Inr st)"
  shows "\<forall>a<length (heap st). children (heap st ! a)
           = filter (\<lambda>k. parent_at (heading_depths fd) k = a) [1..<length (heap st)]"
  using assms
proof (induction rule: org2mind_induct)
  case (start st0)
  from start_SomeD[OF this] show ?case by (auto simp: new_Node_def)
next
  case (line xs x s s')
  note wf = wf_org2mind[OF line.hyps(1)]
  show ?case
  proof (cases "re_heading (strip x)")
    case None
    from other_line_step[OF line.hyps(2) None] obtain m tp where s': "s' = retitled m tp s"
      by blast
    from line.IH show ?thesis unfolding s' by (simp add: heading_depths_snoc None)
  next
    case (Some r)
    obtain stars t where r: "r = (stars, t)" by (cases r)
    note re = Some[unfolded r]
    note hs = heading_line_step[OF line.hyps(2) re wf]
    let ?d = "length stars"
    let ?ds = "heading_depths xs"
    let ?k = "length (heap s)"
    let ?p = "last (filter (\<lambda>a. level (heap s ! a) < int ?d) (stack s))"
    have kl: "?k = Suc (length ?ds)" by (rule heap_length[OF line.hyps(1)])
    have d1: "1 \<le> ?d" using hs(13) by simp
    have p: "?p = parent_of ?ds ?d" using stack_invariant[OF line.hyps(1)] d1 by blast
    have ds': "heading_depths (xs @ [x]) = ?ds @ [?d]" by (simp add: heading_depths_snoc re)
    have upto: "[1..<Suc ?k] = [1..<?k] @ [?k]" using kl by simp
    have same: "filter (\<lambda>j. parent_at (?ds @ [?d]) j = a) [1..<?k]
                  = filter (\<lambda>j. parent_at ?ds j = a) [1..<?k]" for a
    proof (rule filter_cong[OF refl])
      fix j assume "j \<in> set [1..<?k]"
      then have "0 < j" "j \<le> length ?ds" using kl by auto
      then show "(parent_at (?ds @ [?d]) j = a) = (parent_at ?ds j = a)"
        by (simp add: parent_at_snoc)
    qed
    have lastp: "parent_at (?ds @ [?d]) ?k = ?p"
      unfolding kl p by (rule parent_at_last)
    have ch: "children (heap s' ! a)
                = (if a = ?k then [] else if a = ?p then children (heap s ! a) @ [?k]
                   else children (heap s ! a))" if "a < Suc ?k" for a
    proof -
      from that hs(1) have "children (heap s' ! a) = map children (heap s') ! a" by simp
      also have "\<dots> = ((map children (heap s))[?p := children (heap s ! ?p) @ [?k]] @ [[]]) ! a"
        by (simp only: hs(5))
      also have "\<dots> = (if a = ?k then [] else if a = ?p then children (heap s ! a) @ [?k]
                   else children (heap s ! a))"
        using that hs(12) by (auto simp: nth_append nth_list_update)
      finally show ?thesis .
    qed
    show ?thesis
    proof (intro allI impI)
      fix a assume "a < length (heap s')"
      then have a: "a < Suc ?k" by (simp add: hs(1))
      show "children (heap s' ! a)
              = filter (\<lambda>k. parent_at (heading_depths (xs @ [x])) k = a) [1..<length (heap s')]"
      proof (cases "a = ?k")
        case True
        have "parent_at (?ds @ [?d]) j \<noteq> ?k" if "j \<in> set [1..<Suc ?k]" for j
        proof -
          from that have j: "0 < j" "j \<le> ?k" by auto
          from parent_at_less[OF j(1)] have "parent_at (?ds @ [?d]) j < j" .
          with j(2) show ?thesis by simp
        qed
        then have "filter (\<lambda>j. parent_at (?ds @ [?d]) j = ?k) [1..<Suc ?k] = []"
          by (simp only: filter_empty_conv) blast
        with True ch[OF a] show ?thesis by (simp only: ds' hs(1)) simp
      next
        case False
        with a have ak: "a < ?k" by simp
        from line.IH ak have ih: "children (heap s ! a)
            = filter (\<lambda>j. parent_at ?ds j = a) [1..<?k]" by blast
        have one: "filter (\<lambda>j. parent_at (?ds @ [?d]) j = a) [?k] = (if ?p = a then [?k] else [])"
          using lastp by simp
        have "filter (\<lambda>j. parent_at (?ds @ [?d]) j = a) [1..<Suc ?k]
                = filter (\<lambda>j. parent_at ?ds j = a) [1..<?k] @ (if ?p = a then [?k] else [])"
          unfolding upto by (simp only: filter_append same one)
        with False ch[OF a] ih show ?thesis
          by (simp only: ds' hs(1)) auto
      qed
    qed
  qed
qed

lemma ex_jump_file_runs:
  "\<exists>st. org2mind ex_draws ex_uuids None ex_jump_file = Some (Inr st)"
proof -
  have "(case org2mind ex_draws ex_uuids None ex_jump_file of
           Some (Inr st) \<Rightarrow> True | _ \<Rightarrow> False)"
    by code_simp
  then show ?thesis by (auto split: option.splits sum.splits)
qed

lemma ex_jump_file_split: "ex_jump_file = [''* A'', ''**** D'', ''** B''] @ [''** C'']"
  by (simp add: ex_jump_file_def)

lemma ex_jump_file_eval:
  "re_heading (strip ''** C'') = Some (''**'', ''C'')"
  "heading_depths ex_jump_file = [1, 4, 2, 2]"
  "Suc (length (heading_depths [''* A'', ''**** D'', ''** B''])) = 4"
  "parent_of (heading_depths [''* A'', ''**** D'', ''** B'']) (length ''**'') = 1"
  "filter (\<lambda>k. parent_at [1, 4, 2, 2] k = 0) [1..<5] = [1]"
  "filter (\<lambda>k. parent_at [1, 4, 2, 2] k = 1) [1..<5] = [2, 3, 4]"
  by code_simp+

text \<open>
  C4: the nodes are stored in the order of their heading lines, and in the returned tree
  the children of every node are, in order, exactly the nodes whose nearest preceding
  heading of a strictly smaller depth is the heading of that node (the root when there
  is none). When the last line of the file is a heading, its node is the last child of
  that parent: a heading becomes the last child of its parent when it is read, whatever
  the jump in depth, and a heading of the depth of the previous one becomes its sibling.
\<close>

theorem c4_nearest_shallower_parent:
  assumes run: "org2mind g u last_c fd = Some (Inr st)"
  shows "map level (heap st) = 0 # map int (heading_depths fd)
       \<and> (\<forall>a<length (heap st). children (heap st ! a)
             = filter (\<lambda>k. parent_at (heading_depths fd) k = a) [1..<length (heap st)])
       \<and> (\<forall>xs l stars t. fd = xs @ [l] \<and> re_heading (strip l) = Some (stars, t) \<longrightarrow>
             length (heap st) = Suc (Suc (length (heading_depths xs)))
           \<and> level (heap st ! Suc (length (heading_depths xs))) = int (length stars)
           \<and> topic (heap st ! Suc (length (heading_depths xs))) = t
           \<and> parent_of (heading_depths xs) (length stars) \<le> length (heading_depths xs)
           \<and> children (heap st ! parent_of (heading_depths xs) (length stars)) \<noteq> []
           \<and> last (children (heap st ! parent_of (heading_depths xs) (length stars)))
                = Suc (length (heading_depths xs)))"
proof -
  have snoc: "length (heap st) = Suc (Suc (length (heading_depths xs)))
           \<and> level (heap st ! Suc (length (heading_depths xs))) = int (length stars)
           \<and> topic (heap st ! Suc (length (heading_depths xs))) = t
           \<and> parent_of (heading_depths xs) (length stars) \<le> length (heading_depths xs)
           \<and> children (heap st ! parent_of (heading_depths xs) (length stars)) \<noteq> []
           \<and> last (children (heap st ! parent_of (heading_depths xs) (length stars)))
                = Suc (length (heading_depths xs))"
    if fd: "fd = xs @ [l]" and re: "re_heading (strip l) = Some (stars, t)" for xs l stars t
  proof -
    from run obtain s where s: "org2mind g u last_c xs = Some (Inr s)"
      and pl: "process_line g u l s = Some (Inr st)"
      unfolding fd by (auto simp: org2mind_snoc split: option.splits sum.splits)
    note wf = wf_org2mind[OF s]
    note hs = heading_line_step[OF pl re wf]
    let ?k = "length (heap s)"
    let ?p = "last (filter (\<lambda>a. level (heap s ! a) < int (length stars)) (stack s))"
    have kl: "?k = Suc (length (heading_depths xs))" by (rule heap_length[OF s])
    have d1: "1 \<le> length stars" using hs(13) by simp
    have p: "?p = parent_of (heading_depths xs) (length stars)"
      using stack_invariant[OF s] d1 by blast
    have "children (heap st ! ?p) = map children (heap st) ! ?p"
      using hs(1) hs(12) by simp
    also have "\<dots> = ((map children (heap s))[?p := children (heap s ! ?p) @ [?k]] @ [[]]) ! ?p"
      by (simp only: hs(5))
    also have "\<dots> = children (heap s ! ?p) @ [?k]"
      using hs(12) by (simp add: nth_append)
    finally have ch: "children (heap st ! ?p) = children (heap s ! ?p) @ [?k]" .
    from map_snoc_nth(2)[OF hs(2)] have lv: "level (heap st ! ?k) = int (length stars)" .
    from hs(1) hs(6) lv ch parent_of_le[of "heading_depths xs" "length stars"] show ?thesis
      unfolding p kl by simp
  qed
  from levels_org2mind[OF run] children_invariant[OF run] snoc show ?thesis by blast
qed

theorem c4_nearest_shallower_parent_witness:
  "\<exists>st. org2mind ex_draws ex_uuids None ex_jump_file = Some (Inr st)
        \<and> map level (heap st) = [0, 1, 4, 2, 2]
        \<and> children (heap st ! 0) = [1]
        \<and> children (heap st ! 1) = [2, 3, 4]
        \<and> topic (heap st ! 4) = ''C''
        \<and> last (children (heap st ! 1)) = 4"
proof -
  from ex_jump_file_runs obtain st where
    h: "org2mind ex_draws ex_uuids None ex_jump_file = Some (Inr st)" by blast
  note c = c4_nearest_shallower_parent[OF h]
  from c have lv: "map level (heap st) = [0, 1, 4, 2, 2]" by (simp add: ex_jump_file_eval(2))
  then have "length (map level (heap st)) = 5" by simp
  then have len: "length (heap st) = 5" by simp
  from c have ch: "\<And>a. a < length (heap st) \<Longrightarrow> children (heap st ! a)
             = filter (\<lambda>k. parent_at (heading_depths ex_jump_file) k = a) [1..<length (heap st)]"
    by blast
  from ch[of 0] have c0: "children (heap st ! 0) = [1]"
    unfolding len ex_jump_file_eval(2) ex_jump_file_eval(5) by simp
  from ch[of 1] have c1: "children (heap st ! 1) = [2, 3, 4]"
    unfolding len ex_jump_file_eval(2) ex_jump_file_eval(6) by simp
  from c ex_jump_file_split ex_jump_file_eval(1)
  have "topic (heap st ! Suc (length (heading_depths [''* A'', ''**** D'', ''** B'']))) = ''C''
        \<and> last (children (heap st ! parent_of (heading_depths [''* A'', ''**** D'', ''** B''])
                    (length ''**'')))
            = Suc (length (heading_depths [''* A'', ''**** D'', ''** B'']))"
    by blast
  then have "topic (heap st ! 4) = ''C'' \<and> last (children (heap st ! 1)) = 4"
    unfolding ex_jump_file_eval(3) ex_jump_file_eval(4) .
  with h lv c0 c1 show ?thesis by (intro exI[of _ st] conjI) blast+
qed

section \<open>Runs that differ in their uuids only\<close>

text \<open>The state after a heading line, in closed form.\<close>

lemma parse_heading_closed:
  fixes u :: "nat \<Rightarrow> string"
  assumes re: "re_heading line = Some (stars, t)" and wf: "wf s"
  defines "D \<equiv> int (length stars)"
  defines "k \<equiv> length (heap s)"
  defines "filt \<equiv> filter (\<lambda>a. level (heap s ! a) < D) (stack s)"
  defines "H \<equiv> (heap s)[last filt := (heap s ! last filt)
                    \<lparr>children := children (heap s ! last filt) @ [k]\<rparr>]"
  defines "n0 \<equiv> new_Node t D (background_color_v s) (Some foreground_color_v) (u (uuid_pos s))"
  shows "parse_heading g u line s =
     (if D = 1
      then (case random_color_loop g (last_color s) (rand_pos s) of
              None \<Rightarrow> None
            | Some (c, j) \<Rightarrow>
                Some (Inr (s\<lparr>heap := H @ [n0\<lparr>direction := (if direction_v s = 0 then ''right''
                                                             else ''left''),
                                                background_color := Some c\<rparr>],
                              uuid_pos := Suc (uuid_pos s),
                              direction_v := 1 - direction_v s, last_color := Some c,
                              rand_pos := j, background_color_v := Some c,
                              stack := filt @ [k], level_v := D\<rparr>)))
      else Some (Inr (s\<lparr>heap := H @ [n0], uuid_pos := Suc (uuid_pos s),
                         stack := filt @ [k], level_v := D\<rparr>)))"
proof -
  have D1: "1 \<le> D" using re_heading_depth[OF re] by (simp add: D_def)
  have dir: "direction_v s = 0 \<or> direction_v s = 1" using wf by (simp add: wf_def)
  define s1 where "s1 = s\<lparr>heap := heap s @ [n0], uuid_pos := Suc (uuid_pos s)\<rparr>"
  have alloc: "alloc_Node u t D (background_color_v s) (Some foreground_color_v) s = (k, s1)"
    by (simp add: alloc_Node_def s1_def n0_def k_def)
  have ph: "parse_heading g u line s =
              (case (if D = 1 then first_level_node g k s1 else Some (Inr s1)) of
                 None \<Rightarrow> None
               | Some (Inl e) \<Rightarrow> Some (Inl e)
               | Some (Inr st2) \<Rightarrow> Some (attach k D st2))"
    unfolding D_def using alloc[unfolded D_def] by (simp add: parse_heading_def re)
  have fl: "first_level_node g k s1 =
              (case random_color_loop g (last_color s) (rand_pos s) of
                 None \<Rightarrow> None
               | Some (c, j) \<Rightarrow> Some (Inr (s1\<lparr>heap := heap s @
                     [n0\<lparr>direction := (if direction_v s = 0 then ''right'' else ''left''),
                         background_color := Some c\<rparr>],
                     direction_v := 1 - direction_v s, last_color := Some c, rand_pos := j,
                     background_color_v := Some c\<rparr>)))"
    using dir
    by (auto simp: first_level_node_def py_index_directions Let_def update_node_def
        random_color_def s1_def k_def split: option.splits)
  have att: "attach k D r = Inr (r\<lparr>stack := filt @ [k], heap := H @ [nd], level_v := D\<rparr>)"
    if "heap r = heap s @ [nd]" "stack r = stack s" "level_v r = level_v s" for r nd
    using attach_step[OF wf D1 that] by (simp add: k_def filt_def H_def)
  show ?thesis
  proof (cases "D = 1")
    case False
    have "attach k D s1 = Inr (s1\<lparr>stack := filt @ [k], heap := H @ [n0], level_v := D\<rparr>)"
      by (rule att) (simp_all add: s1_def)
    with False show ?thesis by (simp add: ph s1_def)
  next
    case True
    show ?thesis
    proof (cases "random_color_loop g (last_color s) (rand_pos s)")
      case None
      with True show ?thesis by (simp add: ph fl)
    next
      case (Some cj)
      obtain c j where cj: "cj = (c, j)" by (cases cj)
      define n1 where "n1 = n0\<lparr>direction := (if direction_v s = 0 then ''right'' else ''left''),
                         background_color := Some c\<rparr>"
      define r where "r = s1\<lparr>heap := heap s @ [n1],
                     direction_v := 1 - direction_v s, last_color := Some c, rand_pos := j,
                     background_color_v := Some c\<rparr>"
      have f: "first_level_node g k s1 = Some (Inr r)"
        by (simp add: fl Some cj r_def n1_def)
      have "attach k D r = Inr (r\<lparr>stack := filt @ [k], heap := H @ [n1], level_v := D\<rparr>)"
        by (rule att) (simp_all add: r_def s1_def)
      with True f show ?thesis
        by (simp add: ph Some cj r_def s1_def n1_def)
    qed
  qed
qed

lemma forget_ids_fields [simp]:
  "heap (forget_ids s) = map (\<lambda>n. n\<lparr>id' := []\<rparr>) (heap s)"
  "stack (forget_ids s) = stack s"
  "level_v (forget_ids s) = level_v s"
  "direction_v (forget_ids s) = direction_v s"
  "background_color_v (forget_ids s) = background_color_v s"
  "last_color (forget_ids s) = last_color s"
  "rand_pos (forget_ids s) = rand_pos s"
  "uuid_pos (forget_ids s) = uuid_pos s"
  "meta (forget_ids s) = meta s"
  by (simp_all add: forget_ids_def)

lemma forget_ids_idem [simp]: "forget_ids (forget_ids s) = forget_ids s"
  by (simp add: forget_ids_def)

lemma wf_forget_ids [simp]: "wf (forget_ids s) = wf s"
  by (auto simp: wf_def)

lemma forget_parse_meta:
  assumes "heap s \<noteq> []"
  shows "parse_meta line (forget_ids s) = forget_ids (parse_meta line s)"
proof -
  have "(map f h)[0 := (map f h ! 0)\<lparr>topic := v\<rparr>] = map f (h[0 := (h ! 0)\<lparr>topic := v\<rparr>])"
    if "h \<noteq> []" "\<And>n. f (n\<lparr>topic := v\<rparr>) = (f n)\<lparr>topic := v\<rparr>"
    for h :: "Node list" and f :: "Node \<Rightarrow> Node" and v
    using that by (simp add: map_update)
  from this[OF assms, of "\<lambda>n. n\<lparr>id' := []\<rparr>"] show ?thesis
    by (auto simp: parse_meta_def update_node_def root_def forget_ids_def Let_def
        split: option.splits)
qed

lemma forget_parse_heading:
  assumes wf: "wf s"
  shows "map_option (map_sum id forget_ids) (parse_heading g u line s)
       = map_option (map_sum id forget_ids) (parse_heading g u' line (forget_ids s))"
proof (cases "re_heading line")
  case None
  then show ?thesis by (simp add: parse_heading_def)
next
  case (Some r)
  obtain stars t where r: "r = (stars, t)" by (cases r)
  note re = Some[unfolded r]
  let ?e = "\<lambda>n::Node. n\<lparr>id' := []\<rparr>"
  let ?D = "int (length stars)"
  let ?k = "length (heap s)"
  let ?filt = "filter (\<lambda>a. level (heap s ! a) < ?D) (stack s)"
  have wf': "wf (forget_ids s)" using wf by simp
  have in_heap: "\<forall>a\<in>set (stack s). a < ?k" using wf by (simp add: wf_def)
  have filt: "filter (\<lambda>a. level (map ?e (heap s) ! a) < ?D) (stack s) = ?filt"
    by (rule filter_cong) (use in_heap in auto)
  have D1: "1 \<le> ?D" using re_heading_depth[OF re] by simp
  have ne: "?filt \<noteq> []" by (rule filter_stack[OF wf D1])
  from last_in_set[OF ne] in_heap have p: "last ?filt < ?k" by auto
  have H: "(map ?e (heap s))[last ?filt := (map ?e (heap s) ! last ?filt)
              \<lparr>children := children (map ?e (heap s) ! last ?filt) @ [?k]\<rparr>]
         = map ?e ((heap s)[last ?filt := (heap s ! last ?filt)
              \<lparr>children := children (heap s ! last ?filt) @ [?k]\<rparr>])"
  proof -
    have c1: "?e (n\<lparr>children := cs\<rparr>) = (?e n)\<lparr>children := cs\<rparr>" for n cs by simp
    have c2: "children (?e n) = children n" for n by simp
    show ?thesis
      using p by (simp only: map_update nth_map c1 c2)
  qed
  note L = parse_heading_closed[OF re wf, of g u]
  note R = parse_heading_closed[OF re wf', of g u']
  show ?thesis
  proof (cases "?D = 1")
    case False
    then have c: "(?D = 1) = False" by simp
    have "map_option (map_sum id forget_ids) (parse_heading g u line s)
            = Some (Inr (forget_ids (s\<lparr>heap := (heap s)[last ?filt := (heap s ! last ?filt)
                    \<lparr>children := children (heap s ! last ?filt) @ [?k]\<rparr>]
                  @ [new_Node t ?D (background_color_v s) (Some foreground_color_v) (u (uuid_pos s))],
                uuid_pos := Suc (uuid_pos s), stack := ?filt @ [?k], level_v := ?D\<rparr>)))"
      by (simp only: L c if_False option.map map_sum.simps id_apply)
    moreover have "map_option (map_sum id forget_ids) (parse_heading g u' line (forget_ids s))
            = Some (Inr (forget_ids (forget_ids s\<lparr>heap := map ?e ((heap s)[last ?filt := (heap s ! last ?filt)
                    \<lparr>children := children (heap s ! last ?filt) @ [?k]\<rparr>])
                  @ [new_Node t ?D (background_color_v s) (Some foreground_color_v) (u' (uuid_pos s))],
                uuid_pos := Suc (uuid_pos s), stack := ?filt @ [?k], level_v := ?D\<rparr>)))"
      by (simp only: R c if_False option.map map_sum.simps id_apply forget_ids_fields filt H
          length_map)
    moreover have "forget_ids (s\<lparr>heap := h1 @ [new_Node t ?D b f (u (uuid_pos s))],
                uuid_pos := q, stack := st, level_v := ?D\<rparr>)
          = forget_ids (forget_ids s\<lparr>heap := map ?e h1 @ [new_Node t ?D b f (u' (uuid_pos s))],
                uuid_pos := q, stack := st, level_v := ?D\<rparr>)" for h1 b f q st
      by (simp add: forget_ids_def new_Node_def)
    ultimately show ?thesis by (simp only:)
  next
    case True
    then have c: "(?D = 1) = True" by simp
    show ?thesis
    proof (cases "random_color_loop g (last_color s) (rand_pos s)")
      case None
      have "parse_heading g u line s = None"
        by (simp only: L c None if_True option.case)
      moreover have "parse_heading g u' line (forget_ids s) = None"
        by (simp only: R c None if_True option.case forget_ids_fields)
      ultimately show ?thesis by simp
    next
      case (Some cj)
      obtain c j where cj: "cj = (c, j)" by (cases cj)
      let ?dir = "if direction_v s = 0 then ''right'' else ''left''"
      have "map_option (map_sum id forget_ids) (parse_heading g u line s)
            = Some (Inr (forget_ids (s\<lparr>heap := (heap s)[last ?filt := (heap s ! last ?filt)
                    \<lparr>children := children (heap s ! last ?filt) @ [?k]\<rparr>]
                  @ [(new_Node t ?D (background_color_v s) (Some foreground_color_v) (u (uuid_pos s)))
                       \<lparr>direction := ?dir, background_color := Some c\<rparr>],
                uuid_pos := Suc (uuid_pos s), direction_v := 1 - direction_v s,
                last_color := Some c, rand_pos := j, background_color_v := Some c,
                stack := ?filt @ [?k], level_v := ?D\<rparr>)))"
        by (simp only: L c Some[unfolded cj] if_True option.case prod.case option.map
            map_sum.simps id_apply)
      moreover have "map_option (map_sum id forget_ids) (parse_heading g u' line (forget_ids s))
            = Some (Inr (forget_ids (forget_ids s\<lparr>heap := map ?e ((heap s)[last ?filt := (heap s ! last ?filt)
                    \<lparr>children := children (heap s ! last ?filt) @ [?k]\<rparr>])
                  @ [(new_Node t ?D (background_color_v s) (Some foreground_color_v) (u' (uuid_pos s)))
                       \<lparr>direction := ?dir, background_color := Some c\<rparr>],
                uuid_pos := Suc (uuid_pos s), direction_v := 1 - direction_v s,
                last_color := Some c, rand_pos := j, background_color_v := Some c,
                stack := ?filt @ [?k], level_v := ?D\<rparr>)))"
        by (simp only: R c Some[unfolded cj] if_True option.case prod.case option.map
            map_sum.simps id_apply forget_ids_fields filt H length_map)
      moreover have "forget_ids (s\<lparr>heap := h1 @ [(new_Node t ?D b f (u (uuid_pos s)))
                       \<lparr>direction := d, background_color := Some c\<rparr>],
                uuid_pos := q, direction_v := dv, last_color := Some c, rand_pos := j,
                background_color_v := Some c, stack := st, level_v := ?D\<rparr>)
          = forget_ids (forget_ids s\<lparr>heap := map ?e h1 @ [(new_Node t ?D b f (u' (uuid_pos s)))
                       \<lparr>direction := d, background_color := Some c\<rparr>],
                uuid_pos := q, direction_v := dv, last_color := Some c, rand_pos := j,
                background_color_v := Some c, stack := st, level_v := ?D\<rparr>)" for h1 b f q st d dv
        by (simp add: forget_ids_def new_Node_def)
      ultimately show ?thesis by (simp only:)
    qed
  qed
qed

lemma forget_process_line:
  assumes wf: "wf s"
  shows "map_option (map_sum id forget_ids) (process_line g u x s)
       = map_option (map_sum id forget_ids) (process_line g u' x (forget_ids s))"
proof -
  have ne: "heap s \<noteq> []" using wf by (simp add: wf_def)
  have "wf (parse_meta (strip x) s)" using wf by (simp add: parse_meta_retitled)
  from forget_parse_heading[OF this] show ?thesis
    by (simp add: process_line_parse forget_parse_meta[OF ne])
qed

lemma forget_start:
  "map_option forget_ids (start g u last_c) = map_option forget_ids (start g u' last_c)"
  by (simp add: start_def alloc_Node_def forget_ids_def new_Node_def split: option.splits)

lemma forget_org2mind:
  "map_option (map_sum id forget_ids) (org2mind g u last_c fd)
     = map_option (map_sum id forget_ids) (org2mind g u' last_c fd)"
proof (induction fd rule: rev_induct)
  case Nil
  from forget_start[of g u last_c u'] show ?case
    by (cases "start g u last_c"; cases "start g u' last_c") (simp_all add: org2mind_Nil)
next
  case (snoc x xs)
  show ?case
  proof (cases "org2mind g u last_c xs")
    case None
    with snoc have "org2mind g u' last_c xs = None" by simp
    with None show ?thesis by (simp add: org2mind_snoc)
  next
    case (Some r)
    show ?thesis
    proof (cases r)
      case (Inl e)
      with Some snoc have "org2mind g u' last_c xs = Some (Inl e)"
        by (cases "org2mind g u' last_c xs"; cases "the (org2mind g u' last_c xs)") auto
      with Some Inl show ?thesis by (simp add: org2mind_snoc)
    next
      case (Inr s)
      with Some snoc obtain s' where s': "org2mind g u' last_c xs = Some (Inr s')"
        and eq: "forget_ids s = forget_ids s'"
        by (cases "org2mind g u' last_c xs"; cases "the (org2mind g u' last_c xs)") auto
      have "map_option (map_sum id forget_ids) (process_line g u x s)
              = map_option (map_sum id forget_ids) (process_line g u' x (forget_ids s))"
        by (rule forget_process_line[OF wf_org2mind[OF Some[unfolded Inr]]])
      also have "\<dots> = map_option (map_sum id forget_ids) (process_line g u' x s')"
        unfolding eq by (rule forget_process_line[OF wf_org2mind[OF s'], symmetric])
      finally show ?thesis by (simp only: org2mind_snoc Some Inr s' option.case sum.case)
    qed
  qed
qed

lemma ids_org2mind:
  assumes "org2mind g u last_c fd = Some (Inr st)"
  shows "uuid_pos st = length (heap st) \<and> map id' (heap st) = map u [0..<length (heap st)]"
  using assms
proof (induction rule: org2mind_induct)
  case (start st0)
  from start_SomeD[OF this] show ?case by (auto simp: new_Node_def)
next
  case (line xs x s s')
  note wf = wf_org2mind[OF line.hyps(1)]
  show ?case
  proof (cases "re_heading (strip x)")
    case None
    from other_line_step[OF line.hyps(2) None] obtain m tp where s': "s' = retitled m tp s"
      by blast
    from line.IH show ?thesis unfolding s' by simp
  next
    case (Some r)
    obtain stars t where r: "r = (stars, t)" by (cases r)
    note hs = heading_line_step[OF line.hyps(2) Some[unfolded r] wf]
    from line.IH show ?thesis by (simp add: hs(1) hs(4) hs(9))
  qed
qed

section \<open>C2: the ids of the nodes\<close>

lemma ex_uuids_4:
  "map ex_uuids [0..<Suc (length (heading_depths ex_file))] = [''a'', ''aa'', ''aaa'', ''aaaa'']"
  by code_simp

text \<open>
  C2 as the claim states it fails. The seed fixes the random source \<open>g\<close> (it is passed to
  \<open>random.seed\<close>), but the ids come from \<open>uuid.uuid4()\<close>, which does not read that
  source: two runs on the same (empty) file with the same random source and two
  different sequences of uuids return different nodes.
\<close>

theorem c2_ids_not_fixed_by_seed:
  "result_heap (org2mind ex_draws ex_uuids None [])
     \<noteq> result_heap (org2mind ex_draws other_uuids None [])"
  by code_simp

text \<open>
  The colours depend on the state of the allocator at the call as well: \<open>random.seed\<close>
  does not reset \<open>random_color.last_color\<close>, so a call of \<open>org2mind\<close> that follows another
  one in the same process may draw other colours from the same random source.
\<close>

lemma last_color_matters:
  "map background_color (result_heap (org2mind ex_draws ex_uuids None []))
     \<noteq> map background_color (result_heap (org2mind ex_draws ex_uuids (Some ''#5EBD3E'') []))"
  by code_simp

text \<open>
  C2, amended: for the same file and the same seed, two runs of the program (each in a
  fresh process, where no colour has been emitted yet) return or fail alike, and their
  results are the same up to the ids of the nodes: metadata, tree, colours and every
  other field do not depend on the uuids drawn. The same holds for two calls of
  \<open>org2mind\<close> with the same random source that start with the allocator in the same
  state \<open>last_c\<close>. The id of the node at address \<open>k\<close> is the uuid number \<open>k\<close> of the run.
\<close>

theorem c2_same_up_to_ids:
  "map_option (map_sum id forget_ids) (main seeded u seed fd)
     = map_option (map_sum id forget_ids) (main seeded u' seed fd)
   \<and> map_option (map_sum id forget_ids) (org2mind g u last_c fd)
     = map_option (map_sum id forget_ids) (org2mind g u' last_c fd)
   \<and> (\<forall>st. org2mind g u last_c fd = Some (Inr st) \<longrightarrow>
          map id' (heap st) = map u [0..<length (heap st)])"
  using forget_org2mind[of "seeded seed" u None fd u'] forget_org2mind[of g u last_c fd u']
    ids_org2mind[of g u last_c fd]
  unfolding main_def by blast

theorem c2_same_up_to_ids_witness:
  "\<exists>st. org2mind ex_draws ex_uuids None ex_file = Some (Inr st)
        \<and> map id' (heap st) = [''a'', ''aa'', ''aaa'', ''aaaa'']
        \<and> map_option (map_sum id forget_ids) (org2mind ex_draws ex_uuids None ex_file)
            = map_option (map_sum id forget_ids) (org2mind ex_draws other_uuids None ex_file)"
proof -
  from ex_file_runs obtain st where
    h: "org2mind ex_draws ex_uuids None ex_file = Some (Inr st)" by blast
  note c = c2_same_up_to_ids[where g = ex_draws and u = ex_uuids and last_c = None
      and fd = ex_file and u' = other_uuids]
  from c h have "map id' (heap st) = map ex_uuids [0..<length (heap st)]" by blast
  then have ids: "map id' (heap st) = [''a'', ''aa'', ''aaa'', ''aaaa'']"
    unfolding heap_length[OF h] ex_uuids_4 .
  from c h ids show ?thesis by (intro exI[of _ st] conjI) blast+
qed

end
